theory Spec2Isabelle
  imports Main "HOL-Library.Word" "HOL-Library.AList"
begin

section \<open>Sliding window protocol (fc/swp.py): packet codec\<close>

text \<open>
  A Python \<open>bytes\<close> value is a list of 8-bit words. The exceptions that the modelled
  code can raise are values of \<open>error\<close>; a function that may raise returns
  \<open>error + 'a\<close>, with \<open>Inl\<close> for the exception.
\<close>

type_synonym byte = "8 word"
type_synonym bytes = "byte list"

datatype error = StructError | ValueError | KeyError | TypeError

subsection \<open>SWPType\<close>

text \<open>\<open>class SWPType(enum.IntEnum)\<close>: \<open>DATA = ord('D')\<close>, \<open>ACK = ord('A')\<close>.\<close>

datatype SWPType = DATA | ACK

fun SWPType_value :: "SWPType \<Rightarrow> int" where
  "SWPType_value DATA = 68"
| "SWPType_value ACK = 65"

text \<open>The call \<open>SWPType(v)\<close>: the member with that value, \<open>ValueError\<close> when there is none.\<close>

definition SWPType_of :: "int \<Rightarrow> error + SWPType" where
  "SWPType_of v = (if v = 68 then Inr DATA else if v = 65 then Inr ACK else Inl ValueError)"

subsection \<open>The format \<open>'!BI'\<close> of the struct module\<close>

text \<open>
  \<open>struct.pack('!BI', b, n)\<close>: one unsigned byte, then an unsigned 32-bit integer in
  network byte order, with no padding; \<open>struct.error\<close> when a value does not fit its field.
  \<open>struct.unpack('!BI', buf)\<close>: \<open>struct.error\<close> unless \<open>buf\<close> has exactly
  \<open>struct.calcsize('!BI') = 5\<close> bytes.
\<close>

definition HEADER_SIZE :: nat where
  "HEADER_SIZE = 5"

definition MAX_DATA_SIZE :: nat where
  "MAX_DATA_SIZE = 1400"

definition struct_pack_BI :: "int \<Rightarrow> int \<Rightarrow> error + bytes" where
  "struct_pack_BI b n =
     (if 0 \<le> b \<and> b \<le> 255 \<and> 0 \<le> n \<and> n \<le> 4294967295
      then Inr [word_of_int b,
                word_of_int (n div 16777216 mod 256), word_of_int (n div 65536 mod 256),
                word_of_int (n div 256 mod 256), word_of_int (n mod 256)]
      else Inl StructError)"

definition struct_unpack_BI :: "bytes \<Rightarrow> error + (int \<times> int)" where
  "struct_unpack_BI buf =
     (if length buf = HEADER_SIZE
      then Inr (uint (buf ! 0),
                uint (buf ! 1) * 16777216 + uint (buf ! 2) * 65536
                  + uint (buf ! 3) * 256 + uint (buf ! 4))
      else Inl StructError)"

subsection \<open>SWPPacket\<close>

record SWPPacket =
  pkt_type :: SWPType
  seq_num :: int
  data :: bytes

text \<open>\<open>SWPPacket.to_bytes\<close>: the packed header followed by the data.\<close>

definition to_bytes :: "SWPPacket \<Rightarrow> error + bytes" where
  "to_bytes p =
     (case struct_pack_BI (SWPType_value (pkt_type p)) (seq_num p) of
        Inl e \<Rightarrow> Inl e
      | Inr header \<Rightarrow> Inr (header @ data p))"

text \<open>
  \<open>SWPPacket.from_bytes\<close>: unpack \<open>raw[:5]\<close>, look the type up, and take \<open>raw[5:]\<close>
  as the data.
\<close>

definition from_bytes :: "bytes \<Rightarrow> error + SWPPacket" where
  "from_bytes raw =
     (case struct_unpack_BI (take HEADER_SIZE raw) of
        Inl e \<Rightarrow> Inl e
      | Inr (t, n) \<Rightarrow>
          (case SWPType_of t of
             Inl e \<Rightarrow> Inl e
           | Inr ty \<Rightarrow> Inr \<lparr>pkt_type = ty, seq_num = n, data = drop HEADER_SIZE raw\<rparr>))"

section \<open>The LLP endpoint and timers\<close>

text \<open>
  \<open>llp.LLPEndpoint\<close> is outside the module. An endpoint is seen through its two calls:
  \<open>send(raw)\<close>, modelled by the list of the datagrams handed to it (oldest first), and
  \<open>recv()\<close>, whose successive results (\<open>None\<close> or a datagram) are the input of a
  receive loop.

  A \<open>threading.Timer\<close> object is identified by the number of timers created before it.
  A timer is live from \<open>start()\<close> until it expires or \<open>cancel()\<close> is called on it;
  the live timers are kept with the sequence number each one will retransmit.
\<close>

type_synonym timer = nat

section \<open>SWPSender\<close>

definition SEND_WINDOW_SIZE :: nat where
  "SEND_WINDOW_SIZE = 5"

text \<open>
  The fields \<open>_next_seq_num\<close>, \<open>_send_buffer\<close> and \<open>_timers\<close>, the datagrams passed
  to \<open>_llp_endpoint.send\<close> so far (\<open>sender_llp\<close>), and the timers: how many were created
  (\<open>timer_count\<close>) and which are live (\<open>live_timers\<close>).
\<close>

record SWPSender =
  next_seq_num :: int
  send_buffer :: "(int \<times> SWPPacket) list"
  timers :: "(int \<times> timer) list"
  sender_llp :: "bytes list"
  timer_count :: nat
  live_timers :: "(timer \<times> int) list"

text \<open>The state after \<open>__init__\<close>. The dictionaries are association lists in insertion order.\<close>

definition SWPSender_init :: SWPSender where
  "SWPSender_init =
     \<lparr>next_seq_num = 0, send_buffer = [], timers = [], sender_llp = [],
      timer_count = 0, live_timers = []\<rparr>"

text \<open>\<open>timer = Timer(_TIMEOUT, self._retransmit, [seq_num]); timer.start()\<close>\<close>

definition Timer_start :: "int \<Rightarrow> SWPSender \<Rightarrow> timer \<times> SWPSender" where
  "Timer_start k s =
     (timer_count s,
      s\<lparr>timer_count := Suc (timer_count s),
        live_timers := live_timers s @ [(timer_count s, k)]\<rparr>)"

text \<open>\<open>timer.cancel()\<close>: no effect on a timer that is not live.\<close>

definition Timer_cancel :: "timer \<Rightarrow> SWPSender \<Rightarrow> SWPSender" where
  "Timer_cancel t s = s\<lparr>live_timers := AList.delete t (live_timers s)\<rparr>"

text \<open>
  \<open>SWPSender._send\<close>. A full window returns at once. Otherwise the packet enters the
  send buffer, is encoded and sent, and its timer is started and stored. An exception of
  \<open>to_bytes\<close> leaves \<open>_send\<close> at that point; the result is then the exception alone.
\<close>

definition SWPSender__send :: "SWPSender \<Rightarrow> bytes \<Rightarrow> error + SWPSender" where
  "SWPSender__send s d =
     (if length (send_buffer s) \<ge> SEND_WINDOW_SIZE then Inr s
      else
        let k = next_seq_num s;
            s1 = s\<lparr>next_seq_num := k + 1\<rparr>;
            packet = \<lparr>pkt_type = DATA, seq_num = k, data = d\<rparr>;
            s2 = s1\<lparr>send_buffer := AList.update k packet (send_buffer s1)\<rparr>
        in (case to_bytes packet of
              Inl e \<Rightarrow> Inl e
            | Inr raw \<Rightarrow>
                let s3 = s2\<lparr>sender_llp := sender_llp s2 @ [raw]\<rparr>;
                    (t, s4) = Timer_start k s3
                in Inr (s4\<lparr>timers := AList.update k t (timers s4)\<rparr>)))"

text \<open>
  \<open>SWPSender.send\<close>: \<open>range(0, len(data), MAX_DATA_SIZE)\<close> gives the offsets, and the
  slice \<open>data[i:i+MAX_DATA_SIZE]\<close> is passed to \<open>_send\<close> for each of them in turn.
\<close>

definition range_step :: "nat \<Rightarrow> nat \<Rightarrow> nat list" where
  "range_step n step = map (\<lambda>j. j * step) [0..<(n + step - 1) div step]"

fun send_each :: "SWPSender \<Rightarrow> bytes list \<Rightarrow> error + SWPSender" where
  "send_each s [] = Inr s"
| "send_each s (d # ds) =
     (case SWPSender__send s d of Inl e \<Rightarrow> Inl e | Inr s' \<Rightarrow> send_each s' ds)"

definition SWPSender_send :: "SWPSender \<Rightarrow> bytes \<Rightarrow> error + SWPSender" where
  "SWPSender_send s d =
     send_each s (map (\<lambda>i. take MAX_DATA_SIZE (drop i d)) (range_step (length d) MAX_DATA_SIZE))"

text \<open>\<open>SWPSender._retransmit\<close>\<close>

definition SWPSender__retransmit :: "SWPSender \<Rightarrow> int \<Rightarrow> error + SWPSender" where
  "SWPSender__retransmit s k =
     (case map_of (send_buffer s) k of
        None \<Rightarrow> Inr s
      | Some packet \<Rightarrow>
          (case to_bytes packet of
             Inl e \<Rightarrow> Inl e
           | Inr raw \<Rightarrow>
               let s1 = s\<lparr>sender_llp := sender_llp s @ [raw]\<rparr>
               in (case map_of (timers s1) k of
                     None \<Rightarrow> Inl KeyError
                   | Some t \<Rightarrow>
                       let s2 = Timer_cancel t s1;
                           (t', s3) = Timer_start k s2
                       in Inr (s3\<lparr>timers := AList.update k t' (timers s3)\<rparr>))))"

text \<open>
  The expiry of a timer: a live timer stops being live and calls \<open>_retransmit\<close> with its
  sequence number; a timer that is not live does nothing.
\<close>

definition Timer_expire :: "SWPSender \<Rightarrow> timer \<Rightarrow> error + SWPSender" where
  "Timer_expire s t =
     (case map_of (live_timers s) t of
        None \<Rightarrow> Inr s
      | Some k \<Rightarrow> SWPSender__retransmit (s\<lparr>live_timers := AList.delete t (live_timers s)\<rparr>) k)"

text \<open>
  The loop over \<open>list(self._send_buffer.keys())\<close> in \<open>SWPSender._recv\<close>: the keys are
  a snapshot, and every \<open>[...]\<close> and \<open>del\<close> on a missing key raises \<open>KeyError\<close>.
\<close>

fun ack_loop :: "int \<Rightarrow> int list \<Rightarrow> SWPSender \<Rightarrow> error + SWPSender" where
  "ack_loop ack_seq_num [] s = Inr s"
| "ack_loop ack_seq_num (k # ks) s =
     (if k \<le> ack_seq_num then
        (case map_of (timers s) k of
           None \<Rightarrow> Inl KeyError
         | Some t \<Rightarrow>
             let s1 = Timer_cancel t s;
                 s2 = s1\<lparr>timers := AList.delete k (timers s1)\<rparr>
             in (case map_of (send_buffer s2) k of
                   None \<Rightarrow> Inl KeyError
                 | Some _ \<Rightarrow>
                     ack_loop ack_seq_num ks
                       (s2\<lparr>send_buffer := AList.delete k (send_buffer s2)\<rparr>)))
      else ack_loop ack_seq_num ks s)"

text \<open>
  One iteration of the \<open>while True\<close> of \<open>SWPSender._recv\<close>, on the result of
  \<open>self._llp_endpoint.recv()\<close>. \<open>Inr\<close> is the state with which the loop goes on,
  \<open>Inl\<close> the exception that leaves the loop. The packet is decoded twice, as in the source.
\<close>

definition SWPSender__recv_iteration :: "SWPSender \<Rightarrow> bytes option \<Rightarrow> error + SWPSender" where
  "SWPSender__recv_iteration s r =
     (case r of
        None \<Rightarrow> Inr s
      | Some raw \<Rightarrow>
          (case from_bytes raw of
             Inl e \<Rightarrow> Inl e
           | Inr _ \<Rightarrow>
               (case from_bytes raw of
                  Inl e \<Rightarrow> Inl e
                | Inr packet \<Rightarrow>
                    if pkt_type packet = ACK
                    then ack_loop (seq_num packet) (map fst (send_buffer s)) s
                    else Inr s)))"

text \<open>
  \<open>SWPSender._recv\<close> on the first results of \<open>recv()\<close>: the loop has no exit of its own,
  so \<open>Inr\<close> is the state of a loop that is still running and \<open>Inl\<close> the exception that
  ended it.
\<close>

fun SWPSender__recv :: "SWPSender \<Rightarrow> bytes option list \<Rightarrow> error + SWPSender" where
  "SWPSender__recv s [] = Inr s"
| "SWPSender__recv s (r # rs) =
     (case SWPSender__recv_iteration s r of
        Inl e \<Rightarrow> Inl e
      | Inr s' \<Rightarrow> SWPSender__recv s' rs)"

section \<open>SWPReceiver\<close>

definition RECV_WINDOW_SIZE :: int where
  "RECV_WINDOW_SIZE = 5"

text \<open>
  The fields \<open>_ready_data\<close> (a queue, oldest first), \<open>_expected_seq_num\<close> and
  \<open>_buffer\<close>, and the datagrams passed to \<open>_llp_endpoint.send\<close> so far (\<open>receiver_llp\<close>).
\<close>

record SWPReceiver =
  ready_data :: "bytes list"
  expected_seq_num :: int
  buffer :: "(int \<times> bytes) list"
  receiver_llp :: "bytes list"

definition SWPReceiver_init :: SWPReceiver where
  "SWPReceiver_init =
     \<lparr>ready_data = [], expected_seq_num = 0, buffer = [], receiver_llp = []\<rparr>"

text \<open>
  \<open>SWPReceiver.recv\<close>: \<open>queue.Queue.get()\<close> takes the oldest element; on an empty queue
  it blocks, which is \<open>None\<close> here.
\<close>

definition SWPReceiver_recv :: "SWPReceiver \<Rightarrow> (bytes \<times> SWPReceiver) option" where
  "SWPReceiver_recv r =
     (case ready_data r of
        [] \<Rightarrow> None
      | d # ds \<Rightarrow> Some (d, r\<lparr>ready_data := ds\<rparr>))"

text \<open>\<open>SWPReceiver._send_ack\<close>\<close>

definition SWPReceiver__send_ack :: "SWPReceiver \<Rightarrow> int \<Rightarrow> error + SWPReceiver" where
  "SWPReceiver__send_ack r k =
     (let ack_packet = \<lparr>pkt_type = ACK, seq_num = k, data = []\<rparr>
      in (case to_bytes ack_packet of
            Inl e \<Rightarrow> Inl e
          | Inr raw \<Rightarrow> Inr (r\<lparr>receiver_llp := receiver_llp r @ [raw]\<rparr>)))"

lemma length_delete_less:
  assumes "map_of al k = Some v"
  shows "length (AList.delete k al) < length al"
proof -
  have "(k, v) \<in> set al" using assms by (rule map_of_SomeD)
  then have "length (filter (\<lambda>(k', _). k \<noteq> k') al) < length al"
    by (rule length_filter_less) simp
  then show ?thesis by (simp add: AList.delete_eq)
qed

text \<open>\<open>SWPReceiver._process_buffer\<close>: every iteration takes one entry out of the buffer.\<close>

function SWPReceiver__process_buffer :: "SWPReceiver \<Rightarrow> SWPReceiver" where
  "SWPReceiver__process_buffer r =
     (case map_of (buffer r) (expected_seq_num r) of
        None \<Rightarrow> r
      | Some d \<Rightarrow>
          SWPReceiver__process_buffer
            (r\<lparr>buffer := AList.delete (expected_seq_num r) (buffer r),
               ready_data := ready_data r @ [d],
               expected_seq_num := expected_seq_num r + 1\<rparr>))"
  by pat_completeness auto

termination
  by (relation "measure (\<lambda>r. length (buffer r))") (simp_all add: length_delete_less)

text \<open>
  One iteration of the \<open>while True\<close> of \<open>SWPReceiver._recv\<close>. The result of \<open>recv()\<close>
  goes to \<open>from_bytes\<close> unchecked, and slicing \<open>None\<close> raises \<open>TypeError\<close>.
\<close>

definition SWPReceiver__recv_iteration :: "SWPReceiver \<Rightarrow> bytes option \<Rightarrow> error + SWPReceiver" where
  "SWPReceiver__recv_iteration r x =
     (case x of
        None \<Rightarrow> Inl TypeError
      | Some raw \<Rightarrow>
          (case from_bytes raw of
             Inl e \<Rightarrow> Inl e
           | Inr packet \<Rightarrow>
               if pkt_type packet = DATA then
                 let k = seq_num packet
                 in if k \<ge> expected_seq_num r \<and> k < expected_seq_num r + RECV_WINDOW_SIZE
                    then
                      let r1 = r\<lparr>buffer := AList.update k (data packet) (buffer r)\<rparr>
                      in (case SWPReceiver__send_ack r1 k of
                            Inl e \<Rightarrow> Inl e
                          | Inr r2 \<Rightarrow> Inr (SWPReceiver__process_buffer r2))
                    else Inr r
               else Inr r))"

fun SWPReceiver__recv :: "SWPReceiver \<Rightarrow> bytes option list \<Rightarrow> error + SWPReceiver" where
  "SWPReceiver__recv r [] = Inr r"
| "SWPReceiver__recv r (x # xs) =
     (case SWPReceiver__recv_iteration r x of
        Inl e \<Rightarrow> Inl e
      | Inr r' \<Rightarrow> SWPReceiver__recv r' xs)"

section \<open>The sender's invariant\<close>

text \<open>
  The invariant of the sender's state between two operations: the send buffer holds at
  most \<open>_SEND_WINDOW_SIZE\<close> packets; the send buffer and the timer dictionary have the
  same keys, each once; the live timers are exactly the timers of the dictionary, each
  armed for the key it is stored under; every buffered packet carries its key as its
  sequence number, below the next sequence number, which is at most \<open>2^32\<close>; and every
  live timer was created before the next timer will be.
\<close>

definition sender_inv :: "SWPSender \<Rightarrow> bool" where
  "sender_inv s \<longleftrightarrow>
     length (send_buffer s) \<le> SEND_WINDOW_SIZE
   \<and> fst ` set (send_buffer s) = fst ` set (timers s)
   \<and> distinct (map fst (send_buffer s))
   \<and> distinct (map fst (timers s))
   \<and> distinct (map fst (live_timers s))
   \<and> set (live_timers s) = (\<lambda>(k, t). (t, k)) ` set (timers s)
   \<and> (\<forall>(k, p) \<in> set (send_buffer s). seq_num p = k \<and> 0 \<le> k \<and> k < next_seq_num s)
   \<and> 0 \<le> next_seq_num s \<and> next_seq_num s \<le> 4294967296
   \<and> (\<forall>(t, k) \<in> set (live_timers s). t < timer_count s)"

text \<open>
  The sender's state without the entries whose sequence number satisfies \<open>P\<close>: they leave
  the send buffer and the timer dictionary, and their timers are no longer live. The ACK
  loop is compared with it.
\<close>

definition retire :: "(int \<Rightarrow> bool) \<Rightarrow> SWPSender \<Rightarrow> SWPSender" where
  "retire P s =
     s\<lparr>send_buffer := filter (\<lambda>(k, _). \<not> P k) (send_buffer s),
       timers := filter (\<lambda>(k, _). \<not> P k) (timers s),
       live_timers := filter (\<lambda>(_, k). \<not> P k) (live_timers s)\<rparr>"

text \<open>
  The sender is used from three threads: the application submits segments, timers expire,
  and the receive loop takes the results of \<open>recv()\<close>. A run of the sender is a list of
  these operations, each carried out as a whole; it ends at the first exception.
\<close>

datatype sender_op = Submit bytes | Expire timer | Receive "bytes option"

fun sender_op_step :: "SWPSender \<Rightarrow> sender_op \<Rightarrow> error + SWPSender" where
  "sender_op_step s (Submit d) = SWPSender__send s d"
| "sender_op_step s (Expire t) = Timer_expire s t"
| "sender_op_step s (Receive x) = SWPSender__recv_iteration s x"

fun sender_ops :: "SWPSender \<Rightarrow> sender_op list \<Rightarrow> error + SWPSender" where
  "sender_ops s [] = Inr s"
| "sender_ops s (x # xs) =
     (case sender_op_step s x of Inl e \<Rightarrow> Inl e | Inr s' \<Rightarrow> sender_ops s' xs)"

section \<open>Codec properties\<close>

lemma uint_byte_of_int: "uint (word_of_int k :: byte) = k mod 256"
  by (simp add: uint_word_of_int take_bit_eq_mod)

lemma be32_decode_encode:
  fixes n :: int
  assumes "0 \<le> n" "n \<le> 4294967295"
  shows "(n div 16777216) mod 256 * 16777216 + (n div 65536) mod 256 * 65536
           + (n div 256) mod 256 * 256 + n mod 256 = n"
proof -
  define q1 where "q1 = n div 256"
  define q2 where "q2 = q1 div 256"
  define q3 where "q3 = q2 div 256"
  have a: "n div 65536 = q2"
    unfolding q2_def q1_def by (simp add: div_mult2_eq[symmetric])
  have b: "n div 16777216 = q3"
    unfolding q3_def q2_def q1_def by (simp add: div_mult2_eq[symmetric])
  have 1: "n = q1 * 256 + n mod 256" by (simp add: q1_def)
  have 2: "q1 = q2 * 256 + q1 mod 256" by (simp add: q2_def)
  have 3: "q2 = q3 * 256 + q2 mod 256" by (simp add: q3_def)
  have m1: "0 \<le> n mod 256" "0 \<le> q1 mod 256" "0 \<le> q2 mod 256" by simp_all
  have "q3 * 16777216 \<le> n" using 1 2 3 m1 by linarith
  then have c: "q3 < 256" using assms(2) by linarith
  have "0 \<le> q1" using assms(1) by (simp add: q1_def)
  then have "0 \<le> q2" by (simp add: q2_def)
  then have d: "0 \<le> q3" by (simp add: q3_def)
  have e: "q3 mod 256 = q3" using c d by simp
  have "q3 * 16777216 + (q2 mod 256) * 65536 + (q1 mod 256) * 256 + n mod 256 = n"
    using 1 2 3 by linarith
  then show ?thesis unfolding a b e by (simp add: q1_def)
qed

lemma struct_unpack_pack:
  assumes "0 \<le> b" "b \<le> 255" "0 \<le> n" "n \<le> 4294967295"
  shows "\<exists>h. struct_pack_BI b n = Inr h \<and> length h = 5 \<and> struct_unpack_BI h = Inr (b, n)"
proof -
  let ?h = "[word_of_int b, word_of_int (n div 16777216 mod 256),
             word_of_int (n div 65536 mod 256),
             word_of_int (n div 256 mod 256), word_of_int (n mod 256)] :: bytes"
  have p: "struct_pack_BI b n = Inr ?h"
    using assms by (simp add: struct_pack_BI_def)
  have b: "b mod 256 = b" using assms(1,2) by simp
  have u: "struct_unpack_BI ?h =
             Inr (b mod 256,
                  (n div 16777216) mod 256 * 16777216 + (n div 65536) mod 256 * 65536
                    + (n div 256) mod 256 * 256 + n mod 256)"
    unfolding struct_unpack_BI_def HEADER_SIZE_def
    by (simp add: uint_byte_of_int)
  show ?thesis using p u
    unfolding b be32_decode_encode[OF assms(3,4)] by simp
qed

lemma to_bytes_ok:
  assumes "0 \<le> seq_num p" "seq_num p \<le> 4294967295"
  shows "\<exists>h. to_bytes p = Inr (h @ data p) \<and> length h = 5
             \<and> struct_unpack_BI h = Inr (SWPType_value (pkt_type p), seq_num p)"
proof -
  have "0 \<le> SWPType_value (pkt_type p) \<and> SWPType_value (pkt_type p) \<le> 255"
    by (cases "pkt_type p") simp_all
  then obtain h where "struct_pack_BI (SWPType_value (pkt_type p)) (seq_num p) = Inr h"
     "length h = 5" "struct_unpack_BI h = Inr (SWPType_value (pkt_type p), seq_num p)"
    using struct_unpack_pack[of "SWPType_value (pkt_type p)" "seq_num p"] assms by blast
  then show ?thesis by (simp add: to_bytes_def)
qed

lemma SWPType_of_value: "SWPType_of (SWPType_value k) = Inr k"
  by (cases k) (simp_all add: SWPType_of_def)

lemma from_bytes_to_bytes:
  assumes "0 \<le> seq_num p" "seq_num p \<le> 4294967295"
  shows "\<exists>raw. to_bytes p = Inr raw \<and> from_bytes raw = Inr p"
proof -
  obtain h where h: "to_bytes p = Inr (h @ data p)" "length h = 5"
     "struct_unpack_BI h = Inr (SWPType_value (pkt_type p), seq_num p)"
    using to_bytes_ok[OF assms] by blast
  have "from_bytes (h @ data p) = Inr p"
    using h(2,3) by (simp add: from_bytes_def HEADER_SIZE_def SWPType_of_value)
  then show ?thesis using h(1) by blast
qed

lemma uint_byte_eq_iff: "uint (w :: byte) = uint (v :: byte) \<longleftrightarrow> w = v"
  by (simp add: word_uint_eq_iff)

lemma uint_byte_68: "uint (w :: byte) = 68 \<longleftrightarrow> w = 68"
  using uint_byte_eq_iff[of w 68] by simp

lemma uint_byte_65: "uint (w :: byte) = 65 \<longleftrightarrow> w = 65"
  using uint_byte_eq_iff[of w 65] by simp

text \<open>What \<open>from_bytes\<close> returns, by the length of the input and its first byte.\<close>

lemma from_bytes_eq:
  "from_bytes raw =
     (if length raw < 5 then Inl StructError
      else if raw ! 0 = 68 then
        Inr \<lparr>pkt_type = DATA,
             seq_num = uint (raw ! 1) * 16777216 + uint (raw ! 2) * 65536
                         + uint (raw ! 3) * 256 + uint (raw ! 4),
             data = drop 5 raw\<rparr>
      else if raw ! 0 = 65 then
        Inr \<lparr>pkt_type = ACK,
             seq_num = uint (raw ! 1) * 16777216 + uint (raw ! 2) * 65536
                         + uint (raw ! 3) * 256 + uint (raw ! 4),
             data = drop 5 raw\<rparr>
      else Inl ValueError)"
proof (cases "length raw < 5")
  case True
  then show ?thesis
    by (simp add: from_bytes_def struct_unpack_BI_def HEADER_SIZE_def)
next
  case False
  then show ?thesis
    by (simp add: from_bytes_def struct_unpack_BI_def HEADER_SIZE_def SWPType_of_def
        uint_byte_68 uint_byte_65)
qed

lemma from_bytes_seq_range:
  assumes "from_bytes raw = Inr p"
  shows "0 \<le> seq_num p \<and> seq_num p \<le> 4294967295"
proof -
  have u: "0 \<le> uint w \<and> uint w \<le> 255" for w :: byte
  proof -
    have "uint w < 2 ^ 8" using uint_bounded[of w] by simp
    then show ?thesis by simp
  qed
  have "seq_num p = uint (raw ! 1) * 16777216 + uint (raw ! 2) * 65536
                         + uint (raw ! 3) * 256 + uint (raw ! 4)"
    using assms unfolding from_bytes_eq by (auto split: if_splits)
  then show ?thesis using u[of "raw ! 1"] u[of "raw ! 2"] u[of "raw ! 3"] u[of "raw ! 4"]
    by linarith
qed

text \<open>
  C6. For both packet types, every sequence number from 0 to \<open>2^32 - 1\<close> and every
  payload of at most 1400 bytes, \<open>to_bytes\<close> returns a byte string and \<open>from_bytes\<close>
  of that byte string is the packet that was encoded.
\<close>

theorem codec_round_trip:
  assumes "0 \<le> n" "n \<le> 4294967295" "length payload \<le> MAX_DATA_SIZE"
  shows "\<exists>raw. to_bytes \<lparr>pkt_type = k, seq_num = n, data = payload\<rparr> = Inr raw
            \<and> from_bytes raw = Inr \<lparr>pkt_type = k, seq_num = n, data = payload\<rparr>"
  using from_bytes_to_bytes[of "\<lparr>pkt_type = k, seq_num = n, data = payload\<rparr>"] assms(1,2)
  by simp

theorem codec_round_trip_witness:
  "to_bytes \<lparr>pkt_type = DATA, seq_num = 4294967295, data = [1, 2, 3]\<rparr>
     = Inr [68, 255, 255, 255, 255, 1, 2, 3]
   \<and> from_bytes [68, 255, 255, 255, 255, 1, 2, 3]
     = Inr \<lparr>pkt_type = DATA, seq_num = 4294967295, data = [1, 2, 3]\<rparr>"
  using codec_round_trip[of 4294967295 "[1, 2, 3]" DATA]
  by (simp add: MAX_DATA_SIZE_def to_bytes_def struct_pack_BI_def)

text \<open>
  C8. \<open>from_bytes\<close> unpacks the first 5 bytes as the header and returns the rest as the
  data. It raises exactly when the input has fewer than 5 bytes (\<open>struct.error\<close>) or its
  first byte is neither 0x44 nor 0x41 (\<open>ValueError\<close>); these two exceptions are the
  framing errors of the codec.
\<close>

theorem from_bytes_framing:
  "(length raw < 5 \<longrightarrow> from_bytes raw = Inl StructError)
   \<and> (5 \<le> length raw \<and> raw ! 0 \<noteq> 68 \<and> raw ! 0 \<noteq> 65 \<longrightarrow> from_bytes raw = Inl ValueError)
   \<and> (5 \<le> length raw \<and> (raw ! 0 = 68 \<or> raw ! 0 = 65) \<longrightarrow>
        (\<exists>p. from_bytes raw = Inr p
           \<and> pkt_type p = (if raw ! 0 = 68 then DATA else ACK)
           \<and> struct_unpack_BI (take 5 raw) = Inr (SWPType_value (pkt_type p), seq_num p)
           \<and> data p = drop 5 raw))"
  unfolding from_bytes_eq
  by (auto simp: struct_unpack_BI_def HEADER_SIZE_def)

theorem from_bytes_framing_witness:
  "from_bytes [68, 0, 0] = Inl StructError
   \<and> from_bytes [88, 0, 0, 0, 7, 1] = Inl ValueError
   \<and> (\<exists>p. from_bytes [65, 0, 0, 1, 2, 9, 8] = Inr p
          \<and> pkt_type p = ACK \<and> seq_num p = 258 \<and> data p = [9, 8])"
  using from_bytes_framing[of "[68, 0, 0]"] from_bytes_framing[of "[88, 0, 0, 0, 7, 1]"]
    from_bytes_framing[of "[65, 0, 0, 1, 2, 9, 8]"]
  by (auto simp: struct_unpack_BI_def HEADER_SIZE_def)

text \<open>
  C10. \<open>from_bytes\<close> puts no upper bound on the payload: on every input of at least 5
  bytes whose first byte is 0x44 or 0x41 it returns a packet whose data is all of the
  input after the 5-byte header, whatever its length.
\<close>

theorem from_bytes_unbounded_payload:
  assumes "5 \<le> length raw" "raw ! 0 = 68 \<or> raw ! 0 = 65"
  shows "\<exists>p. from_bytes raw = Inr p \<and> data p = drop 5 raw
             \<and> length (data p) = length raw - 5"
  using assms unfolding from_bytes_eq by auto

theorem from_bytes_unbounded_payload_witness:
  "\<exists>p. from_bytes ([68, 0, 0, 0, 3] @ replicate 2000 7) = Inr p
       \<and> data p = replicate 2000 7 \<and> length (data p) = 2000
       \<and> MAX_DATA_SIZE < length (data p)"
  using from_bytes_unbounded_payload[of "[68, 0, 0, 0, 3] @ replicate 2000 7"]
  by (auto simp: MAX_DATA_SIZE_def)

section \<open>Association lists as dictionaries\<close>

lemma update_fresh: "k \<notin> fst ` set al \<Longrightarrow> AList.update k v al = al @ [(k, v)]"
  by (induction al) auto

lemma set_update_present:
  assumes "distinct (map fst al)" "(k, v0) \<in> set al"
  shows "set (AList.update k v al) = insert (k, v) (set al - {(k, v0)})"
  using assms by (induction al) (auto simp: rev_image_eqI)

lemma set_delete_present:
  assumes "distinct (map fst al)" "(k, v0) \<in> set al"
  shows "set (AList.delete k al) = set al - {(k, v0)}"
  using assms by (auto simp: AList.delete_eq eq_key_imp_eq_value)

lemma fst_set_filter_key:
  "fst ` set (filter (\<lambda>(k, _). Q k) al) = {k \<in> fst ` set al. Q k}"
  by force

lemma filter_key_neq:
  "filter (\<lambda>(k', _). k \<noteq> k') al = filter (\<lambda>(k', _). \<not> k' = k) al"
  by (intro filter_cong) auto

lemma map_of_filter_key:
  "map_of (filter (\<lambda>(k, _). P k) al) k = (if P k then map_of al k else None)"
  by (induction al) auto

section \<open>Sender: the operations and the invariant\<close>

lemma sender_inv_init: "sender_inv SWPSender_init"
  by (simp add: sender_inv_def SWPSender_init_def SEND_WINDOW_SIZE_def)

lemma sender_inv_retire:
  assumes "sender_inv s"
  shows "sender_inv (retire P s)"
proof -
  have l: "length (filter (\<lambda>(k, _). \<not> P k) (send_buffer s)) \<le> SEND_WINDOW_SIZE"
    using assms length_filter_le[of "\<lambda>(k, _). \<not> P k" "send_buffer s"]
    unfolding sender_inv_def by linarith
  have "fst ` set (send_buffer s) = fst ` set (timers s)"
    using assms unfolding sender_inv_def by blast
  then have k: "fst ` set (filter (\<lambda>(k, _). \<not> P k) (send_buffer s))
         = fst ` set (filter (\<lambda>(k, _). \<not> P k) (timers s))"
    by (simp only: fst_set_filter_key)
  have "set (live_timers s) = (\<lambda>(k, t). (t, k)) ` set (timers s)"
    using assms unfolding sender_inv_def by blast
  then have v: "set (filter (\<lambda>(_, k). \<not> P k) (live_timers s))
         = (\<lambda>(k, t). (t, k)) ` set (filter (\<lambda>(k, _). \<not> P k) (timers s))"
    by force
  have d: "distinct (map fst (filter (\<lambda>(k, _). \<not> P k) (send_buffer s)))"
      "distinct (map fst (filter (\<lambda>(k, _). \<not> P k) (timers s)))"
      "distinct (map fst (filter (\<lambda>(_, k). \<not> P k) (live_timers s)))"
    using assms unfolding sender_inv_def by (simp_all add: distinct_map_filter)
  have r: "\<forall>(k, p) \<in> set (filter (\<lambda>(k, _). \<not> P k) (send_buffer s)).
             seq_num p = k \<and> 0 \<le> k \<and> k < next_seq_num s"
    using assms unfolding sender_inv_def by auto
  have t: "\<forall>(t, k) \<in> set (filter (\<lambda>(_, k). \<not> P k) (live_timers s)). t < timer_count s"
    using assms unfolding sender_inv_def by auto
  have n: "0 \<le> next_seq_num s" "next_seq_num s \<le> 4294967296"
    using assms unfolding sender_inv_def by blast+
  have eqs: "send_buffer (retire P s) = filter (\<lambda>(k, _). \<not> P k) (send_buffer s)"
    "timers (retire P s) = filter (\<lambda>(k, _). \<not> P k) (timers s)"
    "live_timers (retire P s) = filter (\<lambda>(_, k). \<not> P k) (live_timers s)"
    "next_seq_num (retire P s) = next_seq_num s"
    "timer_count (retire P s) = timer_count s"
    by (simp_all add: retire_def)
  show ?thesis
    unfolding sender_inv_def eqs using l k v d r t n by blast
qed

lemma retire_retire: "retire P (retire Q s) = retire (\<lambda>k. Q k \<or> P k) s"
  by (simp add: retire_def case_prod_unfold conj_commute)

lemma retire_none: "retire (\<lambda>k. False) s = s"
  by (simp add: retire_def)

lemma ack_step_retire:
  assumes inv: "sender_inv s" and t: "map_of (timers s) k = Some t"
  shows "(Timer_cancel t s)\<lparr>timers := AList.delete k (timers (Timer_cancel t s)),
            send_buffer := AList.delete k (send_buffer s)\<rparr> = retire (\<lambda>k'. k' = k) s"
proof -
  have dt: "distinct (map fst (timers s))" and dl: "distinct (map fst (live_timers s))"
    and lv: "set (live_timers s) = (\<lambda>(k, t). (t, k)) ` set (timers s)"
    using inv unfolding sender_inv_def by blast+
  have kt: "(k, t) \<in> set (timers s)" using t by (rule map_of_SomeD)
  then have tk: "(t, k) \<in> set (live_timers s)" unfolding lv by force
  have "t' = t \<longleftrightarrow> k' = k" if "(t', k') \<in> set (live_timers s)" for t' k'
  proof
    assume "t' = t"
    then show "k' = k" using that tk dl by (metis eq_key_imp_eq_value)
  next
    assume "k' = k"
    then have "(k, t') \<in> set (timers s)" using that unfolding lv by auto
    then show "t' = t" using kt dt by (metis eq_key_imp_eq_value)
  qed
  then have "filter (\<lambda>(t', _). t \<noteq> t') (live_timers s)
           = filter (\<lambda>(_, k'). \<not> k' = k) (live_timers s)"
    by (intro filter_cong) auto
  then show ?thesis
    by (simp add: retire_def Timer_cancel_def AList.delete_eq filter_key_neq)
qed

lemma ack_loop_retire:
  assumes "sender_inv s" "distinct ks" "set ks \<subseteq> fst ` set (send_buffer s)"
  shows "ack_loop N ks s = Inr (retire (\<lambda>k. k \<in> set ks \<and> k \<le> N) s)"
  using assms
proof (induction ks arbitrary: s)
  case Nil
  then show ?case by (simp add: retire_none)
next
  case (Cons k ks)
  show ?case
  proof (cases "k \<le> N")
    case True
    have keys: "fst ` set (send_buffer s) = fst ` set (timers s)"
      using Cons.prems(1) unfolding sender_inv_def by blast
    have kb: "k \<in> fst ` set (send_buffer s)" using Cons.prems(3) by simp
    then obtain p where p: "map_of (send_buffer s) k = Some p"
      by (metis map_of_eq_None_iff not_Some_eq)
    obtain t where t: "map_of (timers s) k = Some t"
      using kb keys by (metis map_of_eq_None_iff not_Some_eq)
    let ?s3 = "retire (\<lambda>k'. k' = k) s"
    have step: "ack_loop N (k # ks) s = ack_loop N ks ?s3"
      using True p t ack_step_retire[OF Cons.prems(1) t]
      by (simp add: Timer_cancel_def)
    have inv3: "sender_inv ?s3" using Cons.prems(1) by (rule sender_inv_retire)
    have "set ks \<subseteq> fst ` set (send_buffer ?s3)"
      using Cons.prems(2,3) by (force simp: retire_def)
    then have "ack_loop N ks ?s3 = Inr (retire (\<lambda>k. k \<in> set ks \<and> k \<le> N) ?s3)"
      using Cons.IH[OF inv3] Cons.prems(2) by simp
    moreover have "(\<lambda>k'. k' = k \<or> k' \<in> set ks \<and> k' \<le> N) = (\<lambda>k'. k' \<in> set (k # ks) \<and> k' \<le> N)"
      using True by auto
    ultimately show ?thesis using step by (simp add: retire_retire)
  next
    case False
    then have "(\<lambda>k'. k' \<in> set ks \<and> k' \<le> N) = (\<lambda>k'. k' \<in> set (k # ks) \<and> k' \<le> N)"
      by auto
    then show ?thesis using False Cons.IH[OF Cons.prems(1)] Cons.prems(2,3) by simp
  qed
qed

lemma send_full:
  "SEND_WINDOW_SIZE \<le> length (send_buffer s) \<Longrightarrow> SWPSender__send s d = Inr s"
  by (simp add: SWPSender__send_def)

lemma send_not_full:
  assumes "length (send_buffer s) < SEND_WINDOW_SIZE"
    and "to_bytes \<lparr>pkt_type = DATA, seq_num = next_seq_num s, data = d\<rparr> = Inr raw"
  shows "SWPSender__send s d =
           Inr (s\<lparr>next_seq_num := next_seq_num s + 1,
                  send_buffer := AList.update (next_seq_num s)
                     \<lparr>pkt_type = DATA, seq_num = next_seq_num s, data = d\<rparr> (send_buffer s),
                  sender_llp := sender_llp s @ [raw],
                  timer_count := Suc (timer_count s),
                  live_timers := live_timers s @ [(timer_count s, next_seq_num s)],
                  timers := AList.update (next_seq_num s) (timer_count s) (timers s)\<rparr>)"
  using assms by (simp add: SWPSender__send_def Timer_start_def Let_def)

text \<open>
  Beyond the 32-bit field: with room in the window and the next sequence number at
  \<open>2^32\<close>, \<open>struct.pack\<close> raises inside \<open>_send\<close>.
\<close>

lemma send_seq_num_overflow:
  assumes "length (send_buffer s) < SEND_WINDOW_SIZE" "4294967295 < next_seq_num s"
  shows "SWPSender__send s d = Inl StructError"
  using assms by (simp add: SWPSender__send_def to_bytes_def struct_pack_BI_def Let_def)

lemma sender_inv_send:
  assumes inv: "sender_inv s" and n: "next_seq_num s \<le> 4294967295"
  shows "\<exists>s'. SWPSender__send s d = Inr s' \<and> sender_inv s'"
proof (cases "SEND_WINDOW_SIZE \<le> length (send_buffer s)")
  case True
  then show ?thesis using inv by (simp add: send_full)
next
  case False
  let ?n = "next_seq_num s"
  let ?p = "\<lparr>pkt_type = DATA, seq_num = ?n, data = d\<rparr>"
  have n0: "0 \<le> ?n" using inv unfolding sender_inv_def by blast
  obtain raw where raw: "to_bytes ?p = Inr raw"
    using from_bytes_to_bytes[of ?p] n0 n by auto
  let ?s' = "s\<lparr>next_seq_num := ?n + 1,
                  send_buffer := AList.update ?n ?p (send_buffer s),
                  sender_llp := sender_llp s @ [raw],
                  timer_count := Suc (timer_count s),
                  live_timers := live_timers s @ [(timer_count s, ?n)],
                  timers := AList.update ?n (timer_count s) (timers s)\<rparr>"
  have eq: "SWPSender__send s d = Inr ?s'"
    using False raw by (intro send_not_full) simp_all
  have keys: "fst ` set (send_buffer s) = fst ` set (timers s)"
    and db: "distinct (map fst (send_buffer s))"
    and dt: "distinct (map fst (timers s))"
    and dl: "distinct (map fst (live_timers s))"
    and lv: "set (live_timers s) = (\<lambda>(k, t). (t, k)) ` set (timers s)"
    and rg: "\<forall>(k, p) \<in> set (send_buffer s). seq_num p = k \<and> 0 \<le> k \<and> k < ?n"
    and fr: "\<forall>(t, k) \<in> set (live_timers s). t < timer_count s"
    using inv unfolding sender_inv_def by blast+
  have fresh: "?n \<notin> fst ` set (send_buffer s)" using rg by force
  then have fresh_t: "?n \<notin> fst ` set (timers s)" using keys by simp
  have fresh_l: "timer_count s \<notin> fst ` set (live_timers s)" using fr by force
  have b': "send_buffer ?s' = send_buffer s @ [(?n, ?p)]"
    using fresh by (simp add: update_fresh)
  have t': "timers ?s' = timers s @ [(?n, timer_count s)]"
    using fresh_t by (simp add: update_fresh)
  have rest: "live_timers ?s' = live_timers s @ [(timer_count s, ?n)]"
    "next_seq_num ?s' = ?n + 1" "timer_count ?s' = Suc (timer_count s)"
    by simp_all
  have 1: "length (send_buffer s @ [(?n, ?p)]) \<le> SEND_WINDOW_SIZE" using False by simp
  have 2: "fst ` set (send_buffer s @ [(?n, ?p)]) = fst ` set (timers s @ [(?n, timer_count s)])"
    using keys by simp
  have 3: "distinct (map fst (send_buffer s @ [(?n, ?p)]))" using db fresh by simp
  have 4: "distinct (map fst (timers s @ [(?n, timer_count s)]))" using dt fresh_t by simp
  have 5: "distinct (map fst (live_timers s @ [(timer_count s, ?n)]))" using dl fresh_l by simp
  have 6: "set (live_timers s @ [(timer_count s, ?n)])
             = (\<lambda>(k, t). (t, k)) ` set (timers s @ [(?n, timer_count s)])"
    using lv by simp
  have 7: "\<forall>(k, p) \<in> set (send_buffer s @ [(?n, ?p)]). seq_num p = k \<and> 0 \<le> k \<and> k < ?n + 1"
    using rg n0 by fastforce
  have 8: "0 \<le> ?n + 1" "?n + 1 \<le> 4294967296" using n0 n by simp_all
  have 9: "\<forall>(t, k) \<in> set (live_timers s @ [(timer_count s, ?n)]). t < Suc (timer_count s)"
    using fr by fastforce
  have "sender_inv ?s'"
    unfolding sender_inv_def b' t' rest using 1 2 3 4 5 6 7 8 9 by blast
  then show ?thesis using eq by blast
qed

lemma retransmit_absent:
  "map_of (send_buffer s) k = None \<Longrightarrow> SWPSender__retransmit s k = Inr s"
  by (simp add: SWPSender__retransmit_def)

lemma retransmit_present:
  assumes "map_of (send_buffer s) k = Some p" "to_bytes p = Inr raw"
    "map_of (timers s) k = Some t"
  shows "SWPSender__retransmit s k =
           Inr (s\<lparr>sender_llp := sender_llp s @ [raw],
                  live_timers := AList.delete t (live_timers s) @ [(timer_count s, k)],
                  timer_count := Suc (timer_count s),
                  timers := AList.update k (timer_count s) (timers s)\<rparr>)"
  using assms
  by (simp add: SWPSender__retransmit_def Timer_start_def Timer_cancel_def Let_def)

lemma sender_inv_lookup:
  assumes inv: "sender_inv s" and p: "map_of (send_buffer s) k = Some p"
  shows "\<exists>raw t. to_bytes p = Inr raw \<and> map_of (timers s) k = Some t
           \<and> (k, t) \<in> set (timers s) \<and> (t, k) \<in> set (live_timers s)"
proof -
  have keys: "fst ` set (send_buffer s) = fst ` set (timers s)"
    and lv: "set (live_timers s) = (\<lambda>(k, t). (t, k)) ` set (timers s)"
    and rg: "\<forall>(k, p) \<in> set (send_buffer s). seq_num p = k \<and> 0 \<le> k \<and> k < next_seq_num s"
    and n: "next_seq_num s \<le> 4294967296"
    using inv unfolding sender_inv_def by blast+
  have kp: "(k, p) \<in> set (send_buffer s)" using p by (rule map_of_SomeD)
  then have "0 \<le> seq_num p \<and> seq_num p \<le> 4294967295" using rg n by fastforce
  then obtain raw where raw: "to_bytes p = Inr raw"
    using from_bytes_to_bytes[of p] by auto
  have "k \<in> fst ` set (timers s)" using kp keys by force
  then obtain t where t: "map_of (timers s) k = Some t"
    by (metis map_of_eq_None_iff not_Some_eq)
  then have kt: "(k, t) \<in> set (timers s)" by (rule map_of_SomeD)
  then have "(t, k) \<in> set (live_timers s)" unfolding lv by force
  then show ?thesis using raw t kt by blast
qed

lemma sender_inv_retransmit:
  assumes inv: "sender_inv s"
  shows "\<exists>s'. SWPSender__retransmit s k = Inr s' \<and> sender_inv s'"
proof (cases "map_of (send_buffer s) k")
  case None
  then show ?thesis using inv by (simp add: retransmit_absent)
next
  case (Some p)
  obtain raw t where raw: "to_bytes p = Inr raw" and t: "map_of (timers s) k = Some t"
    and kt: "(k, t) \<in> set (timers s)" and tk: "(t, k) \<in> set (live_timers s)"
    using sender_inv_lookup[OF inv Some] by blast
  let ?c = "timer_count s"
  let ?s' = "s\<lparr>sender_llp := sender_llp s @ [raw],
                  live_timers := AList.delete t (live_timers s) @ [(?c, k)],
                  timer_count := Suc ?c,
                  timers := AList.update k ?c (timers s)\<rparr>"
  have eq: "SWPSender__retransmit s k = Inr ?s'"
    using Some raw t by (rule retransmit_present)
  have len: "length (send_buffer s) \<le> SEND_WINDOW_SIZE"
    and keys: "fst ` set (send_buffer s) = fst ` set (timers s)"
    and db: "distinct (map fst (send_buffer s))"
    and dt: "distinct (map fst (timers s))"
    and dl: "distinct (map fst (live_timers s))"
    and lv: "set (live_timers s) = (\<lambda>(k, t). (t, k)) ` set (timers s)"
    and rg: "\<forall>(k, p) \<in> set (send_buffer s). seq_num p = k \<and> 0 \<le> k \<and> k < next_seq_num s"
    and n: "0 \<le> next_seq_num s" "next_seq_num s \<le> 4294967296"
    and fr: "\<forall>(t, k) \<in> set (live_timers s). t < timer_count s"
    using inv unfolding sender_inv_def by blast+
  have fields: "send_buffer ?s' = send_buffer s" "next_seq_num ?s' = next_seq_num s"
    "timers ?s' = AList.update k ?c (timers s)"
    "live_timers ?s' = AList.delete t (live_timers s) @ [(?c, k)]"
    "timer_count ?s' = Suc ?c"
    by simp_all
  have st: "set (AList.update k ?c (timers s)) = insert (k, ?c) (set (timers s) - {(k, t)})"
    using dt kt by (rule set_update_present)
  have sl: "set (AList.delete t (live_timers s)) = set (live_timers s) - {(t, k)}"
    using dl tk by (rule set_delete_present)
  have 2: "fst ` set (send_buffer s) = fst ` set (AList.update k ?c (timers s))"
    using keys kt by (force simp: AList.dom_update)
  have 4: "distinct (map fst (AList.update k ?c (timers s)))"
    using dt by (rule AList.distinct_update)
  have fresh: "?c \<notin> fst ` set (AList.delete t (live_timers s))"
    using fr unfolding sl by force
  have 5: "distinct (map fst (AList.delete t (live_timers s) @ [(?c, k)]))"
    using AList.distinct_delete[OF dl, of t] fresh by simp
  have inj: "(\<lambda>(k, t). (t, k)) ` (A - {(k, t)}) = (\<lambda>(k, t). (t, k)) ` A - {(t, k)}"
    for A :: "(int \<times> nat) set"
    by force
  have 6: "set (AList.delete t (live_timers s) @ [(?c, k)])
             = (\<lambda>(k, t). (t, k)) ` set (AList.update k ?c (timers s))"
    unfolding st by (simp add: sl lv inj)
  have 9: "\<forall>(t, k) \<in> set (AList.delete t (live_timers s) @ [(?c, k)]). t < Suc ?c"
    using fr unfolding set_append sl by fastforce
  have "sender_inv ?s'"
    unfolding sender_inv_def fields using len 2 db 4 5 6 rg n 9 by blast
  then show ?thesis using eq by blast
qed

lemma expire_eq_retransmit:
  assumes inv: "sender_inv s" and live: "map_of (live_timers s) t = Some k"
  shows "Timer_expire s t = SWPSender__retransmit s k"
proof -
  have keys: "fst ` set (send_buffer s) = fst ` set (timers s)"
    and dt: "distinct (map fst (timers s))"
    and lv: "set (live_timers s) = (\<lambda>(k, t). (t, k)) ` set (timers s)"
    using inv unfolding sender_inv_def by blast+
  have "(t, k) \<in> set (live_timers s)" using live by (rule map_of_SomeD)
  then have kt: "(k, t) \<in> set (timers s)" unfolding lv by auto
  then have t: "map_of (timers s) k = Some t" using dt by simp
  have "k \<in> fst ` set (send_buffer s)" using kt keys by force
  then obtain p where p: "map_of (send_buffer s) k = Some p"
    by (metis map_of_eq_None_iff not_Some_eq)
  obtain raw where raw: "to_bytes p = Inr raw"
    using sender_inv_lookup[OF inv p] by blast
  let ?s0 = "s\<lparr>live_timers := AList.delete t (live_timers s)\<rparr>"
  have "SWPSender__retransmit ?s0 k = SWPSender__retransmit s k"
    using p raw t
    by (simp add: retransmit_present[of s k p raw t] retransmit_present[of ?s0 k p raw t]
        AList.delete_idem)
  then show ?thesis using live by (simp add: Timer_expire_def)
qed

lemma expire_not_live:
  "map_of (live_timers s) t = None \<Longrightarrow> Timer_expire s t = Inr s"
  by (simp add: Timer_expire_def)

lemma sender_inv_expire:
  assumes inv: "sender_inv s"
  shows "\<exists>s'. Timer_expire s t = Inr s' \<and> sender_inv s'"
proof (cases "map_of (live_timers s) t")
  case None
  then show ?thesis using inv by (simp add: expire_not_live)
next
  case (Some k)
  then show ?thesis
    using expire_eq_retransmit[OF inv Some] sender_inv_retransmit[OF inv, of k] by simp
qed

lemma recv_iteration_ack:
  assumes inv: "sender_inv s" and p: "from_bytes raw = Inr p" and a: "pkt_type p = ACK"
  shows "SWPSender__recv_iteration s (Some raw) = Inr (retire (\<lambda>k. k \<le> seq_num p) s)"
proof -
  have db: "distinct (map fst (send_buffer s))"
    using inv unfolding sender_inv_def by blast
  have "ack_loop (seq_num p) (map fst (send_buffer s)) s
          = Inr (retire (\<lambda>k. k \<in> set (map fst (send_buffer s)) \<and> k \<le> seq_num p) s)"
    using inv db by (intro ack_loop_retire) simp_all
  moreover have "retire (\<lambda>k. k \<in> set (map fst (send_buffer s)) \<and> k \<le> seq_num p) s
               = retire (\<lambda>k. k \<le> seq_num p) s"
  proof -
    have keys: "fst ` set (send_buffer s) = fst ` set (timers s)"
      and lv: "set (live_timers s) = (\<lambda>(k, t). (t, k)) ` set (timers s)"
      using inv unfolding sender_inv_def by blast+
    have 1: "filter (\<lambda>(k, _). \<not> (k \<in> set (map fst (send_buffer s)) \<and> k \<le> seq_num p)) (send_buffer s)
           = filter (\<lambda>(k, _). \<not> k \<le> seq_num p) (send_buffer s)"
      by (intro filter_cong) force+
    have 2: "filter (\<lambda>(k, _). \<not> (k \<in> set (map fst (send_buffer s)) \<and> k \<le> seq_num p)) (timers s)
           = filter (\<lambda>(k, _). \<not> k \<le> seq_num p) (timers s)"
      using keys by (intro filter_cong) force+
    have 3: "filter (\<lambda>(_, k). \<not> (k \<in> set (map fst (send_buffer s)) \<and> k \<le> seq_num p)) (live_timers s)
           = filter (\<lambda>(_, k). \<not> k \<le> seq_num p) (live_timers s)"
      using keys lv by (intro filter_cong) force+
    show ?thesis unfolding retire_def 1 2 3 ..
  qed
  ultimately show ?thesis using p a by (simp add: SWPSender__recv_iteration_def)
qed

lemma recv_iteration_data:
  assumes "from_bytes raw = Inr p" "pkt_type p = DATA"
  shows "SWPSender__recv_iteration s (Some raw) = Inr s"
  using assms by (simp add: SWPSender__recv_iteration_def)

lemma recv_iteration_malformed:
  assumes "from_bytes raw = Inl e"
  shows "SWPSender__recv_iteration s (Some raw) = Inl e"
  using assms by (simp add: SWPSender__recv_iteration_def)

lemma recv_iteration_none: "SWPSender__recv_iteration s None = Inr s"
  by (simp add: SWPSender__recv_iteration_def)

text \<open>The invariant holds in every state that a run reaches from the initial state.\<close>

lemma sender_inv_send_returned:
  assumes inv: "sender_inv s" and r: "SWPSender__send s d = Inr s'"
  shows "sender_inv s'"
proof (cases "next_seq_num s \<le> 4294967295")
  case True
  then show ?thesis using sender_inv_send[OF inv True, of d] r by auto
next
  case False
  show ?thesis
  proof (cases "SEND_WINDOW_SIZE \<le> length (send_buffer s)")
    case True
    then show ?thesis using inv r by (simp add: send_full)
  next
    case f: False
    have "struct_pack_BI 68 (next_seq_num s) = Inl StructError"
      using False by (simp add: struct_pack_BI_def)
    then have "SWPSender__send s d = Inl StructError"
      using f by (simp add: SWPSender__send_def to_bytes_def Let_def)
    then show ?thesis using r by simp
  qed
qed

lemma sender_inv_step:
  assumes "sender_inv s" "sender_op_step s x = Inr s'"
  shows "sender_inv s'"
proof (cases x)
  case (Submit d)
  then show ?thesis using assms sender_inv_send_returned by simp
next
  case (Expire t)
  then show ?thesis using assms sender_inv_expire[OF assms(1), of t] by auto
next
  case (Receive y)
  show ?thesis
  proof (cases y)
    case None
    then show ?thesis using assms Receive by (simp add: recv_iteration_none)
  next
    case (Some raw)
    show ?thesis
    proof (cases "from_bytes raw")
      case (Inl e)
      then show ?thesis using assms Receive Some by (simp add: recv_iteration_malformed)
    next
      case (Inr p)
      show ?thesis
      proof (cases "pkt_type p")
        case DATA
        then show ?thesis using assms Receive Some Inr by (simp add: recv_iteration_data)
      next
        case ACK
        then show ?thesis
          using assms Receive Some recv_iteration_ack[OF assms(1) Inr ACK]
            sender_inv_retire[OF assms(1)] by auto
      qed
    qed
  qed
qed

lemma sender_inv_ops:
  assumes "sender_inv s" "sender_ops s xs = Inr s'"
  shows "sender_inv s'"
  using assms
proof (induction xs arbitrary: s)
  case Nil
  then show ?case by simp
next
  case (Cons x xs)
  then show ?case
    by (cases "sender_op_step s x") (auto dest: sender_inv_step)
qed

lemma sender_inv_reachable:
  "sender_ops SWPSender_init xs = Inr s \<Longrightarrow> sender_inv s"
  using sender_inv_init by (rule sender_inv_ops)

lemma send_each_as_ops: "send_each s ds = sender_ops s (map Submit ds)"
  by (induction ds arbitrary: s) (auto split: sum.splits)

lemma sender_inv_send_public:
  assumes "sender_inv s" "SWPSender_send s d = Inr s'"
  shows "sender_inv s'"
  using assms unfolding SWPSender_send_def send_each_as_ops by (rule sender_inv_ops)

section \<open>Receiver: reassembly and the receive window\<close>

lemma process_buffer_absent:
  "map_of (buffer r) (expected_seq_num r) = None \<Longrightarrow> SWPReceiver__process_buffer r = r"
  by (subst SWPReceiver__process_buffer.simps) simp

lemma process_buffer_present:
  "map_of (buffer r) (expected_seq_num r) = Some d \<Longrightarrow>
   SWPReceiver__process_buffer r =
     SWPReceiver__process_buffer
       (r\<lparr>buffer := AList.delete (expected_seq_num r) (buffer r),
          ready_data := ready_data r @ [d],
          expected_seq_num := expected_seq_num r + 1\<rparr>)"
  by (subst SWPReceiver__process_buffer.simps) simp

lemma process_buffer_run:
  "expected_seq_num r \<le> expected_seq_num (SWPReceiver__process_buffer r)
   \<and> (\<forall>k. expected_seq_num r \<le> k \<and> k < expected_seq_num (SWPReceiver__process_buffer r)
          \<longrightarrow> k \<in> fst ` set (buffer r))
   \<and> expected_seq_num (SWPReceiver__process_buffer r) \<notin> fst ` set (buffer r)
   \<and> ready_data (SWPReceiver__process_buffer r) =
        ready_data r @ map (\<lambda>k. the (map_of (buffer r) k))
          [expected_seq_num r .. expected_seq_num (SWPReceiver__process_buffer r) - 1]
   \<and> buffer (SWPReceiver__process_buffer r) =
        filter (\<lambda>(k, _). \<not> (expected_seq_num r \<le> k
                  \<and> k < expected_seq_num (SWPReceiver__process_buffer r))) (buffer r)
   \<and> receiver_llp (SWPReceiver__process_buffer r) = receiver_llp r"
proof (induction r rule: SWPReceiver__process_buffer.induct)
  case (1 r)
  let ?e = "expected_seq_num r"
  show ?case
  proof (cases "map_of (buffer r) ?e")
    case None
    then have "?e \<notin> fst ` set (buffer r)" by (simp add: map_of_eq_None_iff)
    then show ?thesis using None by (auto simp: process_buffer_absent)
  next
    case (Some d)
    let ?r1 = "r\<lparr>buffer := AList.delete ?e (buffer r),
                  ready_data := ready_data r @ [d],
                  expected_seq_num := ?e + 1\<rparr>"
    define r' where "r' = SWPReceiver__process_buffer ?r1"
    define e' where "e' = expected_seq_num r'"
    have eq: "SWPReceiver__process_buffer r = r'"
      unfolding r'_def using Some by (rule process_buffer_present)
    have ih: "?e + 1 \<le> e'"
      "\<forall>k. ?e + 1 \<le> k \<and> k < e' \<longrightarrow> k \<in> fst ` set (AList.delete ?e (buffer r))"
      "e' \<notin> fst ` set (AList.delete ?e (buffer r))"
      "ready_data r' = (ready_data r @ [d]) @ map (\<lambda>k. the (map_of (AList.delete ?e (buffer r)) k)) [?e + 1 .. e' - 1]"
      "buffer r' = filter (\<lambda>(k, _). \<not> (?e + 1 \<le> k \<and> k < e')) (AList.delete ?e (buffer r))"
      "receiver_llp r' = receiver_llp r"
      unfolding e'_def r'_def using "1.IH"[OF Some] by simp_all
    have in_e: "?e \<in> fst ` set (buffer r)"
      using Some by (metis map_of_eq_None_iff option.distinct(1))
    have keys_del: "fst ` set (AList.delete ?e (buffer r)) = fst ` set (buffer r) - {?e}"
      by (force simp: AList.delete_eq)
    have 1: "?e \<le> e'" using ih(1) by simp
    have 2: "\<forall>k. ?e \<le> k \<and> k < e' \<longrightarrow> k \<in> fst ` set (buffer r)"
    proof (intro allI impI)
      fix k assume k: "?e \<le> k \<and> k < e'"
      show "k \<in> fst ` set (buffer r)"
      proof (cases "k = ?e")
        case True then show ?thesis using in_e by simp
      next
        case False
        then have "?e + 1 \<le> k \<and> k < e'" using k by simp
        then show ?thesis using ih(2) keys_del by blast
      qed
    qed
    have 3: "e' \<notin> fst ` set (buffer r)" using ih(1,3) keys_del by auto
    have "map (\<lambda>k. the (map_of (AList.delete ?e (buffer r)) k)) [?e + 1 .. e' - 1]
        = map (\<lambda>k. the (map_of (buffer r) k)) [?e + 1 .. e' - 1]"
      by (intro map_cong) (auto simp: AList.delete_conv)
    moreover have "[?e .. e' - 1] = ?e # [?e + 1 .. e' - 1]"
      using ih(1) by (simp add: upto_rec1)
    ultimately have 4: "ready_data r' = ready_data r @ map (\<lambda>k. the (map_of (buffer r) k)) [?e .. e' - 1]"
      using ih(4) Some by simp
    have "filter (\<lambda>(k, _). \<not> (?e + 1 \<le> k \<and> k < e')) (AList.delete ?e (buffer r))
        = filter (\<lambda>(k, _). \<not> (?e \<le> k \<and> k < e')) (buffer r)"
      unfolding AList.delete_eq filter_filter using ih(1)
      by (intro filter_cong) auto
    then have 5: "buffer r' = filter (\<lambda>(k, _). \<not> (?e \<le> k \<and> k < e')) (buffer r)"
      using ih(5) by simp
    show ?thesis unfolding eq using 1 2 3 4 5 ih(6) unfolding e'_def by blast
  qed
qed

lemma send_ack_ok:
  assumes "0 \<le> k" "k \<le> 4294967295"
  shows "\<exists>raw. to_bytes \<lparr>pkt_type = ACK, seq_num = k, data = []\<rparr> = Inr raw
            \<and> from_bytes raw = Inr \<lparr>pkt_type = ACK, seq_num = k, data = []\<rparr>
            \<and> length raw = 5
            \<and> SWPReceiver__send_ack r k = Inr (r\<lparr>receiver_llp := receiver_llp r @ [raw]\<rparr>)"
proof -
  let ?a = "\<lparr>pkt_type = ACK, seq_num = k, data = []\<rparr>"
  obtain h where h: "to_bytes ?a = Inr (h @ data ?a)" "length h = 5"
    using to_bytes_ok[of ?a] assms by auto
  obtain raw where raw: "to_bytes ?a = Inr raw" "from_bytes raw = Inr ?a"
    using from_bytes_to_bytes[of ?a] assms by auto
  have "length raw = 5" using h raw(1) by simp
  then show ?thesis using raw by (simp add: SWPReceiver__send_ack_def)
qed

lemma receiver_iteration_in_window:
  assumes p: "from_bytes raw = Inr p" and d: "pkt_type p = DATA"
    and w: "expected_seq_num r \<le> seq_num p" "seq_num p < expected_seq_num r + RECV_WINDOW_SIZE"
  shows "\<exists>ack. to_bytes \<lparr>pkt_type = ACK, seq_num = seq_num p, data = []\<rparr> = Inr ack
           \<and> from_bytes ack = Inr \<lparr>pkt_type = ACK, seq_num = seq_num p, data = []\<rparr>
           \<and> SWPReceiver__recv_iteration r (Some raw) =
               Inr (SWPReceiver__process_buffer
                      (r\<lparr>buffer := AList.update (seq_num p) (data p) (buffer r),
                         receiver_llp := receiver_llp r @ [ack]\<rparr>))"
proof -
  have rg: "0 \<le> seq_num p \<and> seq_num p \<le> 4294967295"
    using p by (rule from_bytes_seq_range)
  let ?r1 = "r\<lparr>buffer := AList.update (seq_num p) (data p) (buffer r)\<rparr>"
  obtain ack where ack: "to_bytes \<lparr>pkt_type = ACK, seq_num = seq_num p, data = []\<rparr> = Inr ack"
      "from_bytes ack = Inr \<lparr>pkt_type = ACK, seq_num = seq_num p, data = []\<rparr>"
      "SWPReceiver__send_ack ?r1 (seq_num p) = Inr (?r1\<lparr>receiver_llp := receiver_llp ?r1 @ [ack]\<rparr>)"
    using send_ack_ok[of "seq_num p" ?r1] rg by blast
  have "SWPReceiver__recv_iteration r (Some raw) =
          Inr (SWPReceiver__process_buffer (?r1\<lparr>receiver_llp := receiver_llp ?r1 @ [ack]\<rparr>))"
    using p d w ack(3) by (simp add: SWPReceiver__recv_iteration_def Let_def)
  then show ?thesis using ack(1,2) by auto
qed

lemma receiver_iteration_out_of_window:
  assumes "from_bytes raw = Inr p" "pkt_type p = DATA"
    and "\<not> (expected_seq_num r \<le> seq_num p \<and> seq_num p < expected_seq_num r + RECV_WINDOW_SIZE)"
  shows "SWPReceiver__recv_iteration r (Some raw) = Inr r"
  using assms by (auto simp: SWPReceiver__recv_iteration_def Let_def)

section \<open>Sender: submission, acknowledgement, invariant, receive loop\<close>

text \<open>
  C1, as the code has it. A segment submitted while the send buffer already holds
  \<open>_SEND_WINDOW_SIZE\<close> packets is discarded: \<open>_send\<close> returns with the sender's state
  unchanged, so nothing is queued and nothing is transmitted for it. With room in the
  window, and a next sequence number that fits 32 bits, the segment gets the next
  sequence number, enters the send buffer and is transmitted at once.
\<close>

theorem send_window_full:
  "(SEND_WINDOW_SIZE \<le> length (send_buffer s) \<longrightarrow> SWPSender__send s d = Inr s)
   \<and> (length (send_buffer s) < SEND_WINDOW_SIZE \<and> 0 \<le> next_seq_num s
        \<and> next_seq_num s \<le> 4294967295 \<longrightarrow>
        (\<exists>raw s'. to_bytes \<lparr>pkt_type = DATA, seq_num = next_seq_num s, data = d\<rparr> = Inr raw
           \<and> SWPSender__send s d = Inr s'
           \<and> sender_llp s' = sender_llp s @ [raw]
           \<and> map_of (send_buffer s') (next_seq_num s)
                = Some \<lparr>pkt_type = DATA, seq_num = next_seq_num s, data = d\<rparr>
           \<and> next_seq_num s' = next_seq_num s + 1))"
proof (intro conjI impI)
  assume "SEND_WINDOW_SIZE \<le> length (send_buffer s)"
  then show "SWPSender__send s d = Inr s" by (rule send_full)
next
  let ?p = "\<lparr>pkt_type = DATA, seq_num = next_seq_num s, data = d\<rparr>"
  assume a: "length (send_buffer s) < SEND_WINDOW_SIZE \<and> 0 \<le> next_seq_num s
        \<and> next_seq_num s \<le> 4294967295"
  then obtain raw where raw: "to_bytes ?p = Inr raw"
    using from_bytes_to_bytes[of ?p] by auto
  show "\<exists>raw s'. to_bytes ?p = Inr raw
           \<and> SWPSender__send s d = Inr s'
           \<and> sender_llp s' = sender_llp s @ [raw]
           \<and> map_of (send_buffer s') (next_seq_num s) = Some ?p
           \<and> next_seq_num s' = next_seq_num s + 1"
    using a raw by (simp add: send_not_full[of s d raw] AList.update_conv')
qed

theorem send_window_full_witness:
  "SWPSender__send
     \<lparr>next_seq_num = 5,
      send_buffer = [(0, \<lparr>pkt_type = DATA, seq_num = 0, data = [1]\<rparr>),
                     (1, \<lparr>pkt_type = DATA, seq_num = 1, data = [2]\<rparr>),
                     (2, \<lparr>pkt_type = DATA, seq_num = 2, data = [3]\<rparr>),
                     (3, \<lparr>pkt_type = DATA, seq_num = 3, data = [4]\<rparr>),
                     (4, \<lparr>pkt_type = DATA, seq_num = 4, data = [5]\<rparr>)],
      timers = [(0, 0), (1, 1), (2, 2), (3, 3), (4, 4)],
      sender_llp = [[68, 0, 0, 0, 0, 1], [68, 0, 0, 0, 1, 2], [68, 0, 0, 0, 2, 3],
                    [68, 0, 0, 0, 3, 4], [68, 0, 0, 0, 4, 5]],
      timer_count = 5,
      live_timers = [(0, 0), (1, 1), (2, 2), (3, 3), (4, 4)]\<rparr> [6]
   = Inr \<lparr>next_seq_num = 5,
      send_buffer = [(0, \<lparr>pkt_type = DATA, seq_num = 0, data = [1]\<rparr>),
                     (1, \<lparr>pkt_type = DATA, seq_num = 1, data = [2]\<rparr>),
                     (2, \<lparr>pkt_type = DATA, seq_num = 2, data = [3]\<rparr>),
                     (3, \<lparr>pkt_type = DATA, seq_num = 3, data = [4]\<rparr>),
                     (4, \<lparr>pkt_type = DATA, seq_num = 4, data = [5]\<rparr>)],
      timers = [(0, 0), (1, 1), (2, 2), (3, 3), (4, 4)],
      sender_llp = [[68, 0, 0, 0, 0, 1], [68, 0, 0, 0, 1, 2], [68, 0, 0, 0, 2, 3],
                    [68, 0, 0, 0, 3, 4], [68, 0, 0, 0, 4, 5]],
      timer_count = 5,
      live_timers = [(0, 0), (1, 1), (2, 2), (3, 3), (4, 4)]\<rparr>
   \<and> (\<exists>s'. SWPSender__send SWPSender_init [6] = Inr s'
          \<and> sender_llp s' = [[68, 0, 0, 0, 0, 6]]
          \<and> map_of (send_buffer s') 0 = Some \<lparr>pkt_type = DATA, seq_num = 0, data = [6]\<rparr>
          \<and> next_seq_num s' = 1)"
  using send_window_full[of
     "\<lparr>next_seq_num = 5,
      send_buffer = [(0, \<lparr>pkt_type = DATA, seq_num = 0, data = [1]\<rparr>),
                     (1, \<lparr>pkt_type = DATA, seq_num = 1, data = [2]\<rparr>),
                     (2, \<lparr>pkt_type = DATA, seq_num = 2, data = [3]\<rparr>),
                     (3, \<lparr>pkt_type = DATA, seq_num = 3, data = [4]\<rparr>),
                     (4, \<lparr>pkt_type = DATA, seq_num = 4, data = [5]\<rparr>)],
      timers = [(0, 0), (1, 1), (2, 2), (3, 3), (4, 4)],
      sender_llp = [[68, 0, 0, 0, 0, 1], [68, 0, 0, 0, 1, 2], [68, 0, 0, 0, 2, 3],
                    [68, 0, 0, 0, 3, 4], [68, 0, 0, 0, 4, 5]],
      timer_count = 5,
      live_timers = [(0, 0), (1, 1), (2, 2), (3, 3), (4, 4)]\<rparr>" "[6]"]
    send_window_full[of SWPSender_init "[6]"]
  by (simp add: SEND_WINDOW_SIZE_def SWPSender_init_def to_bytes_def struct_pack_BI_def)

text \<open>
  C1 as stated fails: of six segments submitted to a new sender only five are ever handed
  to the endpoint. The sixth leaves no trace in the state, and an ACK that empties the
  window, followed by further rounds of the receive loop, transmits nothing more.
\<close>

theorem send_window_full_counterexample:
  "send_each SWPSender_init [[1], [2], [3], [4], [5], [6]]
   = Inr \<lparr>next_seq_num = 5,
      send_buffer = [(0, \<lparr>pkt_type = DATA, seq_num = 0, data = [1]\<rparr>),
                     (1, \<lparr>pkt_type = DATA, seq_num = 1, data = [2]\<rparr>),
                     (2, \<lparr>pkt_type = DATA, seq_num = 2, data = [3]\<rparr>),
                     (3, \<lparr>pkt_type = DATA, seq_num = 3, data = [4]\<rparr>),
                     (4, \<lparr>pkt_type = DATA, seq_num = 4, data = [5]\<rparr>)],
      timers = [(0, 0), (1, 1), (2, 2), (3, 3), (4, 4)],
      sender_llp = [[68, 0, 0, 0, 0, 1], [68, 0, 0, 0, 1, 2], [68, 0, 0, 0, 2, 3],
                    [68, 0, 0, 0, 3, 4], [68, 0, 0, 0, 4, 5]],
      timer_count = 5,
      live_timers = [(0, 0), (1, 1), (2, 2), (3, 3), (4, 4)]\<rparr>
   \<and> SWPSender__recv
       \<lparr>next_seq_num = 5,
        send_buffer = [(0, \<lparr>pkt_type = DATA, seq_num = 0, data = [1]\<rparr>),
                       (1, \<lparr>pkt_type = DATA, seq_num = 1, data = [2]\<rparr>),
                       (2, \<lparr>pkt_type = DATA, seq_num = 2, data = [3]\<rparr>),
                       (3, \<lparr>pkt_type = DATA, seq_num = 3, data = [4]\<rparr>),
                       (4, \<lparr>pkt_type = DATA, seq_num = 4, data = [5]\<rparr>)],
        timers = [(0, 0), (1, 1), (2, 2), (3, 3), (4, 4)],
        sender_llp = [[68, 0, 0, 0, 0, 1], [68, 0, 0, 0, 1, 2], [68, 0, 0, 0, 2, 3],
                      [68, 0, 0, 0, 3, 4], [68, 0, 0, 0, 4, 5]],
        timer_count = 5,
        live_timers = [(0, 0), (1, 1), (2, 2), (3, 3), (4, 4)]\<rparr>
       [Some [65, 0, 0, 0, 4], None, None]
     = Inr \<lparr>next_seq_num = 5, send_buffer = [], timers = [],
        sender_llp = [[68, 0, 0, 0, 0, 1], [68, 0, 0, 0, 1, 2], [68, 0, 0, 0, 2, 3],
                      [68, 0, 0, 0, 3, 4], [68, 0, 0, 0, 4, 5]],
        timer_count = 5, live_timers = []\<rparr>"
  by (simp add: SWPSender__send_def SWPSender_init_def SEND_WINDOW_SIZE_def to_bytes_def
      struct_pack_BI_def Timer_start_def Timer_cancel_def Let_def
      SWPSender__recv_iteration_def from_bytes_eq)

text \<open>
  C2. When the receive loop of the sender processes an ACK packet with sequence number
  \<open>N\<close>, every entry of the send buffer with key \<open>k \<le> N\<close> is removed together with
  its entry in the timer dictionary, its timer is cancelled (no longer live), and every
  entry with key \<open>k > N\<close> stays as it was, in both dictionaries and among the live timers.
\<close>

theorem cumulative_ack:
  assumes "sender_inv s" "from_bytes raw = Inr p" "pkt_type p = ACK"
  shows "\<exists>s'. SWPSender__recv_iteration s (Some raw) = Inr s'
     \<and> send_buffer s' = filter (\<lambda>(k, _). \<not> k \<le> seq_num p) (send_buffer s)
     \<and> timers s' = filter (\<lambda>(k, _). \<not> k \<le> seq_num p) (timers s)
     \<and> live_timers s' = filter (\<lambda>(_, k). \<not> k \<le> seq_num p) (live_timers s)
     \<and> (\<forall>k t. k \<le> seq_num p \<and> map_of (timers s) k = Some t
            \<longrightarrow> t \<notin> fst ` set (live_timers s'))
     \<and> (\<forall>k. k \<le> seq_num p
            \<longrightarrow> map_of (send_buffer s') k = None \<and> map_of (timers s') k = None)
     \<and> (\<forall>k. seq_num p < k
            \<longrightarrow> map_of (send_buffer s') k = map_of (send_buffer s) k
              \<and> map_of (timers s') k = map_of (timers s) k)
     \<and> next_seq_num s' = next_seq_num s \<and> sender_llp s' = sender_llp s
     \<and> timer_count s' = timer_count s"
proof -
  let ?N = "seq_num p"
  let ?s' = "retire (\<lambda>k. k \<le> ?N) s"
  have eq: "SWPSender__recv_iteration s (Some raw) = Inr ?s'"
    using assms by (rule recv_iteration_ack)
  have dl: "distinct (map fst (live_timers s))"
    and dt: "distinct (map fst (timers s))"
    and lv: "set (live_timers s) = (\<lambda>(k, t). (t, k)) ` set (timers s)"
    using assms(1) unfolding sender_inv_def by blast+
  have f: "send_buffer ?s' = filter (\<lambda>(k, _). \<not> k \<le> ?N) (send_buffer s)"
    "timers ?s' = filter (\<lambda>(k, _). \<not> k \<le> ?N) (timers s)"
    "live_timers ?s' = filter (\<lambda>(_, k). \<not> k \<le> ?N) (live_timers s)"
    "next_seq_num ?s' = next_seq_num s" "sender_llp ?s' = sender_llp s"
    "timer_count ?s' = timer_count s"
    by (simp_all add: retire_def)
  have c: "\<forall>k t. k \<le> ?N \<and> map_of (timers s) k = Some t \<longrightarrow> t \<notin> fst ` set (live_timers ?s')"
  proof (intro allI impI notI)
    fix k t assume a: "k \<le> ?N \<and> map_of (timers s) k = Some t"
      and "t \<in> fst ` set (live_timers ?s')"
    then obtain k' where k': "(t, k') \<in> set (live_timers s)" "\<not> k' \<le> ?N"
      unfolding f by auto
    have "(k, t) \<in> set (timers s)" using a by (simp add: map_of_SomeD)
    then have "(t, k) \<in> set (live_timers s)" unfolding lv by force
    then have "k' = k" using k'(1) dl by (metis eq_key_imp_eq_value)
    then show False using a k'(2) by simp
  qed
  have m: "map_of (filter (\<lambda>(k, _). \<not> k \<le> ?N) al) k = (if k \<le> ?N then None else map_of al k)"
    for al :: "(int \<times> 'b) list" and k
    by (induction al) auto
  have r: "\<forall>k. k \<le> ?N \<longrightarrow> map_of (send_buffer ?s') k = None \<and> map_of (timers ?s') k = None"
    unfolding f by (simp add: m)
  have k: "\<forall>k. ?N < k \<longrightarrow> map_of (send_buffer ?s') k = map_of (send_buffer s) k
              \<and> map_of (timers ?s') k = map_of (timers s) k"
    unfolding f by (simp add: m)
  show ?thesis using eq f c r k by blast
qed

theorem cumulative_ack_witness:
  "\<exists>s'. SWPSender__recv_iteration
       \<lparr>next_seq_num = 3,
        send_buffer = [(0, \<lparr>pkt_type = DATA, seq_num = 0, data = [7]\<rparr>),
                       (1, \<lparr>pkt_type = DATA, seq_num = 1, data = [8]\<rparr>),
                       (2, \<lparr>pkt_type = DATA, seq_num = 2, data = [9]\<rparr>)],
        timers = [(0, 0), (1, 1), (2, 2)],
        sender_llp = [[68, 0, 0, 0, 0, 7], [68, 0, 0, 0, 1, 8], [68, 0, 0, 0, 2, 9]],
        timer_count = 3,
        live_timers = [(0, 0), (1, 1), (2, 2)]\<rparr> (Some [65, 0, 0, 0, 1]) = Inr s'
     \<and> send_buffer s' = [(2, \<lparr>pkt_type = DATA, seq_num = 2, data = [9]\<rparr>)]
     \<and> timers s' = [(2, 2)]
     \<and> live_timers s' = [(2, 2)]"
proof -
  let ?s = "\<lparr>next_seq_num = 3,
        send_buffer = [(0, \<lparr>pkt_type = DATA, seq_num = 0, data = [7]\<rparr>),
                       (1, \<lparr>pkt_type = DATA, seq_num = 1, data = [8]\<rparr>),
                       (2, \<lparr>pkt_type = DATA, seq_num = 2, data = [9]\<rparr>)],
        timers = [(0, 0), (1, 1), (2, 2)],
        sender_llp = [[68, 0, 0, 0, 0, 7], [68, 0, 0, 0, 1, 8], [68, 0, 0, 0, 2, 9]],
        timer_count = 3,
        live_timers = [(0, 0), (1, 1), (2, 2)]\<rparr>"
  have inv: "sender_inv ?s"
    by (simp add: sender_inv_def SEND_WINDOW_SIZE_def)
  have p: "from_bytes [65, 0, 0, 0, 1] = Inr \<lparr>pkt_type = ACK, seq_num = 1, data = []\<rparr>"
    by (simp add: from_bytes_eq)
  obtain s' where s': "SWPSender__recv_iteration ?s (Some [65, 0, 0, 0, 1]) = Inr s'"
    "send_buffer s' = filter (\<lambda>(k, _). \<not> k \<le> 1) (send_buffer ?s)"
    "timers s' = filter (\<lambda>(k, _). \<not> k \<le> 1) (timers ?s)"
    "live_timers s' = filter (\<lambda>(_, k). \<not> k \<le> 1) (live_timers ?s)"
    using cumulative_ack[OF inv p] by auto
  show ?thesis
    using s' by (intro exI[of _ s']) simp
qed

text \<open>
  C5. In a state that satisfies the invariant the send buffer holds at most
  \<open>_SEND_WINDOW_SIZE\<close> packets, the send buffer and the timer dictionary have the same
  keys, and every buffered sequence number has exactly one live timer. Every operation of
  the sender returns a state that satisfies the invariant again: \<open>_send\<close> (while the next
  sequence number fits the 32-bit field), \<open>_retransmit\<close>, also when called by an expiring
  timer, and a round of the receive loop on any well-formed packet or on no data.
  The state after \<open>__init__\<close> satisfies the invariant (\<open>sender_inv_init\<close>), and so does
  every state reached from it by operations carried out one at a time
  (\<open>sender_inv_reachable\<close>).
\<close>

theorem sender_invariant:
  assumes "sender_inv s"
  shows "length (send_buffer s) \<le> SEND_WINDOW_SIZE
     \<and> fst ` set (send_buffer s) = fst ` set (timers s)
     \<and> (\<forall>k \<in> fst ` set (send_buffer s). \<exists>!t. (t, k) \<in> set (live_timers s))
     \<and> (next_seq_num s \<le> 4294967295 \<longrightarrow>
           (\<exists>s'. SWPSender__send s d = Inr s' \<and> sender_inv s'))
     \<and> (\<exists>s'. SWPSender__retransmit s k = Inr s' \<and> sender_inv s')
     \<and> (\<exists>s'. Timer_expire s t = Inr s' \<and> sender_inv s')
     \<and> (\<forall>p. from_bytes raw = Inr p \<longrightarrow>
           (\<exists>s'. SWPSender__recv_iteration s (Some raw) = Inr s' \<and> sender_inv s'))
     \<and> SWPSender__recv_iteration s None = Inr s"
proof -
  have len: "length (send_buffer s) \<le> SEND_WINDOW_SIZE"
    and keys: "fst ` set (send_buffer s) = fst ` set (timers s)"
    and dt: "distinct (map fst (timers s))"
    and lv: "set (live_timers s) = (\<lambda>(k, t). (t, k)) ` set (timers s)"
    using assms unfolding sender_inv_def by blast+
  have one: "\<forall>k \<in> fst ` set (send_buffer s). \<exists>!t. (t, k) \<in> set (live_timers s)"
  proof
    fix k assume "k \<in> fst ` set (send_buffer s)"
    then obtain t where kt: "(k, t) \<in> set (timers s)" unfolding keys by force
    then have "(t, k) \<in> set (live_timers s)" unfolding lv by force
    moreover have "t' = t" if "(t', k) \<in> set (live_timers s)" for t'
    proof -
      have "(k, t') \<in> set (timers s)" using that unfolding lv by auto
      then show ?thesis using kt dt by (metis eq_key_imp_eq_value)
    qed
    ultimately show "\<exists>!t. (t, k) \<in> set (live_timers s)" by blast
  qed
  have ack: "\<forall>p. from_bytes raw = Inr p \<longrightarrow>
           (\<exists>s'. SWPSender__recv_iteration s (Some raw) = Inr s' \<and> sender_inv s')"
  proof (intro allI impI)
    fix p assume p: "from_bytes raw = Inr p"
    show "\<exists>s'. SWPSender__recv_iteration s (Some raw) = Inr s' \<and> sender_inv s'"
    proof (cases "pkt_type p")
      case DATA
      then show ?thesis using p assms by (simp add: recv_iteration_data)
    next
      case ACK
      then show ?thesis
        using recv_iteration_ack[OF assms p] sender_inv_retire[OF assms] by simp
    qed
  qed
  show ?thesis
    using len keys one sender_inv_send[OF assms, of d] sender_inv_retransmit[OF assms, of k]
      sender_inv_expire[OF assms, of t] ack recv_iteration_none[of s]
    by blast
qed

theorem sender_invariant_witness:
  "sender_inv SWPSender_init
   \<and> (\<exists>s'. SWPSender__send SWPSender_init [7] = Inr s' \<and> sender_inv s'
          \<and> (\<exists>s''. SWPSender__recv_iteration s' (Some [65, 0, 0, 0, 0]) = Inr s''
                  \<and> sender_inv s''))"
proof -
  have i: "sender_inv SWPSender_init" by (rule sender_inv_init)
  have n: "next_seq_num SWPSender_init \<le> 4294967295" by (simp add: SWPSender_init_def)
  obtain s' where s': "SWPSender__send SWPSender_init [7] = Inr s'" "sender_inv s'"
    using sender_invariant[OF i, of "[7]"] n by blast
  have p: "from_bytes [65, 0, 0, 0, 0] = Inr \<lparr>pkt_type = ACK, seq_num = 0, data = []\<rparr>"
    by (simp add: from_bytes_eq)
  obtain s'' where "SWPSender__recv_iteration s' (Some [65, 0, 0, 0, 0]) = Inr s''" "sender_inv s''"
    using sender_invariant[OF s'(2), of _ _ _ "[65, 0, 0, 0, 0]"] p by blast
  then show ?thesis using i s' by blast
qed

text \<open>
  C9, as the code has it. The receive loop of the sender ignores a \<open>recv()\<close> result of
  \<open>None\<close> and goes on with its state unchanged. A malformed datagram is not discarded by
  either loop: \<open>from_bytes\<close> raises, nothing catches the exception, and the loop of the
  sender as well as the loop of the receiver ends with it.
\<close>

theorem receive_loop_anomalies:
  "SWPSender__recv_iteration s None = Inr s
   \<and> SWPSender__recv s (None # rs) = SWPSender__recv s rs
   \<and> (\<forall>e. from_bytes raw = Inl e \<longrightarrow>
         SWPSender__recv s (Some raw # rs) = Inl e
       \<and> SWPReceiver__recv r (Some raw # xs) = Inl e)"
  by (simp add: SWPSender__recv_iteration_def SWPReceiver__recv_iteration_def)

theorem receive_loop_anomalies_witness:
  "SWPSender__recv SWPSender_init [None, None] = Inr SWPSender_init
   \<and> SWPSender__recv SWPSender_init [None, Some [65, 0, 0], None] = Inl StructError
   \<and> SWPReceiver__recv SWPReceiver_init [Some [88, 0, 0, 0, 0, 1], Some [68, 0, 0, 0, 0, 1]]
       = Inl ValueError"
proof -
  have a: "from_bytes [65, 0, 0] = Inl StructError" by (simp add: from_bytes_eq)
  have b: "from_bytes [88, 0, 0, 0, 0, 1] = Inl ValueError" by (simp add: from_bytes_eq)
  show ?thesis
    using receive_loop_anomalies[where s = SWPSender_init and rs = "[None]"]
      receive_loop_anomalies[where s = SWPSender_init and rs = "[]"]
      receive_loop_anomalies[where s = SWPSender_init and rs = "[Some [65, 0, 0], None]"]
      receive_loop_anomalies[where s = SWPSender_init and rs = "[None]" and raw = "[65, 0, 0]"]
      receive_loop_anomalies[where raw = "[88, 0, 0, 0, 0, 1]" and r = SWPReceiver_init
        and xs = "[Some [68, 0, 0, 0, 0, 1]]"]
      a b
    by simp
qed

text \<open>
  C9 as stated fails: a datagram of three bytes ends the loop of the sender, and a
  datagram with the unknown type byte 0x58 ends the loop of the receiver; the datagrams
  behind them are never read.
\<close>

theorem receive_loop_anomalies_counterexample:
  "SWPSender__recv SWPSender_init [Some [68, 0, 0], Some [65, 0, 0, 0, 0]] = Inl StructError
   \<and> SWPReceiver__recv SWPReceiver_init [Some [88, 0, 0, 0, 0], Some [68, 0, 0, 0, 0, 1]]
       = Inl ValueError"
  by (simp add: SWPSender__recv_iteration_def SWPReceiver__recv_iteration_def from_bytes_eq)

text \<open>
  The loop of the receiver has no check for \<open>None\<close>, unlike the loop of the sender:
  \<open>from_bytes(None)\<close> raises \<open>TypeError\<close>.
\<close>

lemma receiver_no_data_raises:
  "SWPReceiver__recv r (None # xs) = Inl TypeError"
  by (simp add: SWPReceiver__recv_iteration_def)

section \<open>Receiver: window check, acknowledgement, reassembly\<close>

text \<open>
  C3. A DATA packet with sequence number \<open>s\<close> is accepted exactly when
  \<open>expected_seq_num \<le> s < expected_seq_num + _RECV_WINDOW_SIZE\<close>. An accepted packet is
  stored in the buffer under \<open>s\<close>, one ACK is sent, and the buffer is processed; its data
  is then in the buffer or among the newly delivered data, and the state has changed.
  Any other DATA packet leaves the whole state of the receiver as it was, with no ACK sent.
\<close>

theorem receiver_window_check:
  assumes "from_bytes raw = Inr p" "pkt_type p = DATA"
  shows "(expected_seq_num r \<le> seq_num p \<and> seq_num p < expected_seq_num r + RECV_WINDOW_SIZE
          \<longrightarrow> (\<exists>ack r'. to_bytes \<lparr>pkt_type = ACK, seq_num = seq_num p, data = []\<rparr> = Inr ack
                 \<and> SWPReceiver__recv_iteration r (Some raw) = Inr r'
                 \<and> r' = SWPReceiver__process_buffer
                          (r\<lparr>buffer := AList.update (seq_num p) (data p) (buffer r),
                             receiver_llp := receiver_llp r @ [ack]\<rparr>)
                 \<and> receiver_llp r' = receiver_llp r @ [ack]
                 \<and> (map_of (buffer r') (seq_num p) = Some (data p)
                      \<or> data p \<in> set (drop (length (ready_data r)) (ready_data r')))
                 \<and> r' \<noteq> r))
       \<and> (\<not> (expected_seq_num r \<le> seq_num p \<and> seq_num p < expected_seq_num r + RECV_WINDOW_SIZE)
          \<longrightarrow> SWPReceiver__recv_iteration r (Some raw) = Inr r)"
proof (intro conjI impI)
  assume w: "expected_seq_num r \<le> seq_num p \<and> seq_num p < expected_seq_num r + RECV_WINDOW_SIZE"
  obtain ack where ack: "to_bytes \<lparr>pkt_type = ACK, seq_num = seq_num p, data = []\<rparr> = Inr ack"
    and it: "SWPReceiver__recv_iteration r (Some raw) =
               Inr (SWPReceiver__process_buffer
                      (r\<lparr>buffer := AList.update (seq_num p) (data p) (buffer r),
                         receiver_llp := receiver_llp r @ [ack]\<rparr>))"
    using receiver_iteration_in_window[OF assms, of r] w by blast
  define r2 where "r2 = r\<lparr>buffer := AList.update (seq_num p) (data p) (buffer r),
                         receiver_llp := receiver_llp r @ [ack]\<rparr>"
  define r' where "r' = SWPReceiver__process_buffer r2"
  have run: "\<forall>k. expected_seq_num r2 \<le> k \<and> k < expected_seq_num r' \<longrightarrow> k \<in> fst ` set (buffer r2)"
    "ready_data r' = ready_data r2 @ map (\<lambda>k. the (map_of (buffer r2) k))
          [expected_seq_num r2 .. expected_seq_num r' - 1]"
    "buffer r' = filter (\<lambda>(k, _). \<not> (expected_seq_num r2 \<le> k \<and> k < expected_seq_num r')) (buffer r2)"
    "receiver_llp r' = receiver_llp r2"
    unfolding r'_def using process_buffer_run[of r2] by blast+
  have f2: "expected_seq_num r2 = expected_seq_num r" "ready_data r2 = ready_data r"
    "receiver_llp r2 = receiver_llp r @ [ack]"
    "map_of (buffer r2) (seq_num p) = Some (data p)"
    by (simp_all add: r2_def AList.update_conv')
  have llp: "receiver_llp r' = receiver_llp r @ [ack]" using run(4) f2(3) by simp
  have held: "map_of (buffer r') (seq_num p) = Some (data p)
                \<or> data p \<in> set (drop (length (ready_data r)) (ready_data r'))"
  proof (cases "seq_num p < expected_seq_num r'")
    case True
    then have "seq_num p \<in> set [expected_seq_num r .. expected_seq_num r' - 1]"
      using w by simp
    then have "the (map_of (buffer r2) (seq_num p))
                 \<in> set (map (\<lambda>k. the (map_of (buffer r2) k)) [expected_seq_num r .. expected_seq_num r' - 1])"
      unfolding set_map by (rule imageI)
    then show ?thesis using run(2) f2 by simp
  next
    case False
    then have "map_of (buffer r') (seq_num p) = map_of (buffer r2) (seq_num p)"
      unfolding run(3) by (simp add: map_of_filter_key)
    then show ?thesis using f2(4) by simp
  qed
  have ne: "r' \<noteq> r"
  proof
    assume "r' = r"
    then have "receiver_llp r = receiver_llp r @ [ack]" using llp by simp
    then show False by simp
  qed
  show "\<exists>ack r'. to_bytes \<lparr>pkt_type = ACK, seq_num = seq_num p, data = []\<rparr> = Inr ack
                 \<and> SWPReceiver__recv_iteration r (Some raw) = Inr r'
                 \<and> r' = SWPReceiver__process_buffer
                          (r\<lparr>buffer := AList.update (seq_num p) (data p) (buffer r),
                             receiver_llp := receiver_llp r @ [ack]\<rparr>)
                 \<and> receiver_llp r' = receiver_llp r @ [ack]
                 \<and> (map_of (buffer r') (seq_num p) = Some (data p)
                      \<or> data p \<in> set (drop (length (ready_data r)) (ready_data r')))
                 \<and> r' \<noteq> r"
    using ack it llp held ne unfolding r'_def r2_def by blast
next
  assume "\<not> (expected_seq_num r \<le> seq_num p \<and> seq_num p < expected_seq_num r + RECV_WINDOW_SIZE)"
  then show "SWPReceiver__recv_iteration r (Some raw) = Inr r"
    using assms by (intro receiver_iteration_out_of_window) 
qed

theorem receiver_window_check_witness:
  "SWPReceiver__recv_iteration SWPReceiver_init (Some [68, 0, 0, 0, 1, 9])
     = Inr \<lparr>ready_data = [], expected_seq_num = 0, buffer = [(1, [9])],
            receiver_llp = [[65, 0, 0, 0, 1]]\<rparr>
   \<and> SWPReceiver__recv_iteration SWPReceiver_init (Some [68, 0, 0, 0, 10, 8])
     = Inr SWPReceiver_init"
proof -
  have p1: "from_bytes [68, 0, 0, 0, 1, 9] = Inr \<lparr>pkt_type = DATA, seq_num = 1, data = [9]\<rparr>"
    by (simp add: from_bytes_eq)
  have p2: "from_bytes [68, 0, 0, 0, 10, 8] = Inr \<lparr>pkt_type = DATA, seq_num = 10, data = [8]\<rparr>"
    by (simp add: from_bytes_eq)
  have pb: "SWPReceiver__process_buffer
     \<lparr>ready_data = [], expected_seq_num = 0,
      buffer = [(1, [9])], receiver_llp = [[65, 0, 0, 0, 1]]\<rparr>
   = \<lparr>ready_data = [], expected_seq_num = 0,
      buffer = [(1, [9])], receiver_llp = [[65, 0, 0, 0, 1]]\<rparr>"
    by (simp add: process_buffer_absent)
  show ?thesis
    using receiver_window_check[OF p1, of SWPReceiver_init]
      receiver_window_check[OF p2, of SWPReceiver_init] pb
    by (auto simp: SWPReceiver_init_def RECV_WINDOW_SIZE_def to_bytes_def struct_pack_BI_def)
qed

text \<open>
  C7. For every accepted DATA packet with sequence number \<open>s\<close> the receiver hands exactly
  one datagram to its endpoint: 5 bytes that decode to an ACK packet with sequence number
  \<open>s\<close> and empty data.
\<close>

theorem receiver_ack_echo:
  assumes "from_bytes raw = Inr p" "pkt_type p = DATA"
    and "expected_seq_num r \<le> seq_num p" "seq_num p < expected_seq_num r + RECV_WINDOW_SIZE"
  shows "\<exists>r' ack. SWPReceiver__recv_iteration r (Some raw) = Inr r'
           \<and> receiver_llp r' = receiver_llp r @ [ack]
           \<and> length ack = 5
           \<and> from_bytes ack = Inr \<lparr>pkt_type = ACK, seq_num = seq_num p, data = []\<rparr>"
proof -
  obtain ack where ack: "to_bytes \<lparr>pkt_type = ACK, seq_num = seq_num p, data = []\<rparr> = Inr ack"
      "from_bytes ack = Inr \<lparr>pkt_type = ACK, seq_num = seq_num p, data = []\<rparr>"
    and it: "SWPReceiver__recv_iteration r (Some raw) =
               Inr (SWPReceiver__process_buffer
                      (r\<lparr>buffer := AList.update (seq_num p) (data p) (buffer r),
                         receiver_llp := receiver_llp r @ [ack]\<rparr>))"
    using receiver_iteration_in_window[OF assms] by blast
  have rg: "0 \<le> seq_num p \<and> seq_num p \<le> 4294967295"
    using assms(1) by (rule from_bytes_seq_range)
  obtain h where "to_bytes \<lparr>pkt_type = ACK, seq_num = seq_num p, data = []\<rparr> = Inr (h @ [])" "length h = 5"
    using to_bytes_ok[of "\<lparr>pkt_type = ACK, seq_num = seq_num p, data = []\<rparr>"] rg by auto
  then have len: "length ack = 5" using ack(1) by simp
  have "receiver_llp (SWPReceiver__process_buffer
                      (r\<lparr>buffer := AList.update (seq_num p) (data p) (buffer r),
                         receiver_llp := receiver_llp r @ [ack]\<rparr>)) = receiver_llp r @ [ack]"
    using process_buffer_run[of "r\<lparr>buffer := AList.update (seq_num p) (data p) (buffer r),
                         receiver_llp := receiver_llp r @ [ack]\<rparr>"] by simp
  then show ?thesis using it len ack(2) by blast
qed

theorem receiver_ack_echo_witness:
  "\<exists>r' ack. SWPReceiver__recv_iteration SWPReceiver_init (Some [68, 0, 0, 0, 1, 9]) = Inr r'
           \<and> receiver_llp r' = [ack]
           \<and> length ack = 5
           \<and> from_bytes ack = Inr \<lparr>pkt_type = ACK, seq_num = 1, data = []\<rparr>"
proof -
  have p1: "from_bytes [68, 0, 0, 0, 1, 9] = Inr \<lparr>pkt_type = DATA, seq_num = 1, data = [9]\<rparr>"
    by (simp add: from_bytes_eq)
  show ?thesis
    using receiver_ack_echo[OF p1, of SWPReceiver_init]
    by (simp add: SWPReceiver_init_def RECV_WINDOW_SIZE_def)
qed

text \<open>
  C4. \<open>_process_buffer\<close> stops when \<open>expected_seq_num\<close> is not a key of the buffer, and
  otherwise takes that entry out, appends its data to the ready queue, adds one to
  \<open>expected_seq_num\<close> and goes on. Hence \<open>expected_seq_num\<close> moves from \<open>e\<close> to the
  first \<open>e'\<close> at or after it that is not a key of the buffer: every sequence number from
  \<open>e\<close> up to \<open>e' - 1\<close> was in the buffer, the data of exactly these sequence numbers is
  appended to the ready queue in increasing order, and exactly these entries leave the buffer.
\<close>

theorem reassembly_in_order:
  "(map_of (buffer r) (expected_seq_num r) = None \<longrightarrow> SWPReceiver__process_buffer r = r)
   \<and> (\<forall>d. map_of (buffer r) (expected_seq_num r) = Some d \<longrightarrow>
         SWPReceiver__process_buffer r =
           SWPReceiver__process_buffer
             (r\<lparr>buffer := AList.delete (expected_seq_num r) (buffer r),
                ready_data := ready_data r @ [d],
                expected_seq_num := expected_seq_num r + 1\<rparr>))
   \<and> expected_seq_num r \<le> expected_seq_num (SWPReceiver__process_buffer r)
   \<and> (\<forall>k. expected_seq_num r \<le> k \<and> k < expected_seq_num (SWPReceiver__process_buffer r)
          \<longrightarrow> k \<in> fst ` set (buffer r))
   \<and> expected_seq_num (SWPReceiver__process_buffer r) \<notin> fst ` set (buffer r)
   \<and> ready_data (SWPReceiver__process_buffer r) =
        ready_data r @ map (\<lambda>k. the (map_of (buffer r) k))
          [expected_seq_num r .. expected_seq_num (SWPReceiver__process_buffer r) - 1]
   \<and> buffer (SWPReceiver__process_buffer r) =
        filter (\<lambda>(k, _). \<not> (expected_seq_num r \<le> k
                  \<and> k < expected_seq_num (SWPReceiver__process_buffer r))) (buffer r)"
  using process_buffer_run[of r] process_buffer_absent[of r] process_buffer_present[of r]
  by blast

theorem reassembly_in_order_witness:
  "SWPReceiver__process_buffer
     \<lparr>ready_data = [[1]], expected_seq_num = 1,
      buffer = [(2, [3]), (1, [2]), (4, [5])], receiver_llp = []\<rparr>
   = \<lparr>ready_data = [[1], [2], [3]], expected_seq_num = 3,
      buffer = [(4, [5])], receiver_llp = []\<rparr>
   \<and> SWPReceiver__process_buffer
     \<lparr>ready_data = [], expected_seq_num = 0,
      buffer = [(1, [9])], receiver_llp = []\<rparr>
   = \<lparr>ready_data = [], expected_seq_num = 0,
      buffer = [(1, [9])], receiver_llp = []\<rparr>"
proof -
  have 1: "SWPReceiver__process_buffer
     \<lparr>ready_data = [[1]], expected_seq_num = 1,
      buffer = [(2, [3]), (1, [2]), (4, [5])], receiver_llp = []\<rparr>
   = SWPReceiver__process_buffer
     \<lparr>ready_data = [[1], [2]], expected_seq_num = 2,
      buffer = [(2, [3]), (4, [5])], receiver_llp = []\<rparr>"
    using reassembly_in_order[of "\<lparr>ready_data = [[1]], expected_seq_num = 1,
      buffer = [(2, [3]), (1, [2]), (4, [5])], receiver_llp = []\<rparr>"]
    by simp
  have 2: "SWPReceiver__process_buffer
     \<lparr>ready_data = [[1], [2]], expected_seq_num = 2,
      buffer = [(2, [3]), (4, [5])], receiver_llp = []\<rparr>
   = SWPReceiver__process_buffer
     \<lparr>ready_data = [[1], [2], [3]], expected_seq_num = 3,
      buffer = [(4, [5])], receiver_llp = []\<rparr>"
    using reassembly_in_order[of "\<lparr>ready_data = [[1], [2]], expected_seq_num = 2,
      buffer = [(2, [3]), (4, [5])], receiver_llp = []\<rparr>"]
    by simp
  have 3: "SWPReceiver__process_buffer
     \<lparr>ready_data = [[1], [2], [3]], expected_seq_num = 3,
      buffer = [(4, [5])], receiver_llp = []\<rparr>
   = \<lparr>ready_data = [[1], [2], [3]], expected_seq_num = 3,
      buffer = [(4, [5])], receiver_llp = []\<rparr>"
    using reassembly_in_order[of "\<lparr>ready_data = [[1], [2], [3]], expected_seq_num = 3,
      buffer = [(4, [5])], receiver_llp = []\<rparr>"]
    by simp
  have 4: "SWPReceiver__process_buffer
     \<lparr>ready_data = [], expected_seq_num = 0,
      buffer = [(1, [9])], receiver_llp = []\<rparr>
   = \<lparr>ready_data = [], expected_seq_num = 0,
      buffer = [(1, [9])], receiver_llp = []\<rparr>"
    using reassembly_in_order[of "\<lparr>ready_data = [], expected_seq_num = 0,
      buffer = [(1, [9])], receiver_llp = []\<rparr>"]
    by simp
  show ?thesis using 1 2 3 4 by simp
qed

end
